theory Spec2Isabelle
  imports Main "HOL-Library.AList" "HOL-Library.Word"
begin

unbundle bit_operations_syntax

section \<open>Strings, substring tests and the two regular expressions\<close>

text \<open>
  Python strings are HOL strings (lists of characters). Device and interface names are
  taken to be ASCII: of the character classes of the regular expressions, \<open>\d\<close> is a
  decimal digit, \<open>\w\<close> a letter, a digit or the underscore, and \<open>.\<close> is every
  character but the line feed; \<open>str.lower\<close> changes the letters A to Z. Python's
  classes and \<open>str.lower\<close> follow the Unicode properties of a character: on a name
  with a letter or a digit outside ASCII the program and these definitions differ.
\<close>

definition newline :: char where
  "newline = CHR 0x0A"

definition is_digit :: "char \<Rightarrow> bool" where
  "is_digit c = (48 \<le> (of_char c :: nat) \<and> (of_char c :: nat) \<le> 57)"

definition is_upper :: "char \<Rightarrow> bool" where
  "is_upper c = (65 \<le> (of_char c :: nat) \<and> (of_char c :: nat) \<le> 90)"

definition is_lower :: "char \<Rightarrow> bool" where
  "is_lower c = (97 \<le> (of_char c :: nat) \<and> (of_char c :: nat) \<le> 122)"

definition word_char :: "char \<Rightarrow> bool" where
  "word_char c = (is_digit c \<or> is_upper c \<or> is_lower c \<or> c = CHR ''_'')"

text \<open>The class \<open>[-\w]\<close> of the host-name group.\<close>

definition host_char :: "char \<Rightarrow> bool" where
  "host_char c = (c = CHR ''-'' \<or> word_char c)"

text \<open>\<open>str.lower()\<close> on one character.\<close>

definition lower_char :: "char \<Rightarrow> char" where
  "lower_char c =
     (case map_of (zip ''ABCDEFGHIJKLMNOPQRSTUVWXYZ'' ''abcdefghijklmnopqrstuvwxyz'') c of
        None \<Rightarrow> c
      | Some l \<Rightarrow> l)"

definition lower :: "string \<Rightarrow> string" where
  "lower s = map lower_char s"

text \<open>Python's \<open>sub in s\<close> on strings: \<open>sub\<close> occurs in \<open>s\<close> as a contiguous substring.\<close>

fun starts_with :: "string \<Rightarrow> string \<Rightarrow> bool" where
  "starts_with [] s = True"
| "starts_with (p # ps) [] = False"
| "starts_with (p # ps) (c # cs) = (p = c \<and> starts_with ps cs)"

fun str_in :: "string \<Rightarrow> string \<Rightarrow> bool" where
  "str_in sub [] = (sub = [])"
| "str_in sub (c # cs) = (starts_with sub (c # cs) \<or> str_in sub cs)"

text \<open>
  \<open>domain_filter = re.compile(r'^.*?(?P<hostname>[-\w]+)\s?')\<close>, applied with
  \<open>match\<close>, which anchors at the start. The lazy \<open>.*?\<close> first tries to consume
  nothing, and one more character (never a line feed) each time the rest fails; the
  greedy \<open>[-\w]+\<close> needs one character of its class and takes the whole run, since
  the optional \<open>\s?\<close> after it cannot fail. The result is the \<open>hostname\<close> group,
  or \<open>None\<close> when there is no match.
\<close>

fun domain_filter_match :: "string \<Rightarrow> string option" where
  "domain_filter_match [] = None"
| "domain_filter_match (c # cs) =
     (if host_char c then Some (takeWhile host_char (c # cs))
      else if c = newline then None
      else domain_filter_match cs)"

text \<open>
  The name normalizer of both neighbor processors:
  \<open>filtered_name = domain_filter.match(dest_host)\<close>, then
  \<open>if filtered_name: dest_host = filtered_name.groupdict()['hostname']\<close>.
\<close>

definition filter_name :: "string \<Rightarrow> string" where
  "filter_name dest_host =
     (case domain_filter_match dest_host of
        None \<Rightarrow> dest_host
      | Some hostname \<Rightarrow> hostname)"

text \<open>
  \<open>interface_filter = re.compile(r'.+?(?=\d)')\<close> with \<open>match\<close>: the shortest
  non-empty prefix without line feed that is followed by a digit. \<open>iface_scan\<close> is the
  part of the match after the first character.
\<close>

fun iface_scan :: "string \<Rightarrow> string option" where
  "iface_scan [] = None"
| "iface_scan (c # cs) =
     (if is_digit c then Some []
      else if c = newline then None
      else map_option ((#) c) (iface_scan cs))"

definition interface_filter_match :: "string \<Rightarrow> string option" where
  "interface_filter_match s =
     (case s of
        [] \<Rightarrow> None
      | c # cs \<Rightarrow> if c = newline then None else map_option ((#) c) (iface_scan cs))"

section \<open>The operating-system classifier\<close>

text \<open>\<open>get_os(system_string, platform_name)\<close>; falling off the end returns \<open>None\<close>.\<close>

definition get_os :: "string \<Rightarrow> string \<Rightarrow> string option" where
  "get_os system_string platform_name =
     (if str_in ''IOS'' system_string \<or> str_in ''IOS'' platform_name then
        (if str_in ''XE'' system_string \<or> str_in ''XE'' platform_name then Some ''iosxe''
         else if str_in ''XR'' system_string \<or> str_in ''XR'' platform_name then Some ''iosxr''
         else Some ''ios'')
      else if str_in ''NX-OS'' system_string \<or> str_in ''NX-OS'' platform_name then Some ''nxos''
      else None)"

section \<open>Errors, sets and the run's configuration\<close>

text \<open>
  Every exception the discovery code can raise is a value; a function that can raise
  returns \<open>error + 'a\<close>, with \<open>Inl\<close> for the exception. No handler of the
  creator catches them, so an error ends the run.
\<close>

datatype error =
  TypeError | KeyError | IndexError | AddressValueError | UnboundLocalError | ParserError

text \<open>
  A Python set is a list without duplicates; the order of the list stands for the
  iteration order of the set, which Python leaves open.
\<close>

definition set_add :: "'a \<Rightarrow> 'a list \<Rightarrow> 'a list" where
  "set_add x xs = (if x \<in> set xs then xs else xs @ [x])"

definition set_union :: "'a list \<Rightarrow> 'a list \<Rightarrow> 'a list" where
  "set_union xs ys = xs @ filter (\<lambda>y. y \<notin> set xs) (remdups ys)"

text \<open>
  The arguments of the creator that the discovery reads. \<open>exclude_interfaces\<close> is the
  argument as given, one string (\<open>exclude_interfaces='<interface> <interface>'\<close>);
  unlike \<open>exclude_network\<close> it is never split.
\<close>

record config =
  only_links :: bool
  exclude_interfaces :: string
  add_unconnected_interfaces :: bool

text \<open>
  An element of \<open>exclude_networks\<close>, as \<open>ipaddress.ip_network\<close> returns it: a
  network address and a netmask for IPv4. Membership of an IPv4 address is
  \<open>address & netmask == network_address\<close>, and false in a network of the other
  family. The parser \<open>ipaddress.IPv4Address\<close> of the standard library is a parameter
  \<open>parse\<close> of the functions below: \<open>None\<close> when it raises.
\<close>

datatype ip_network = IPv4Network "32 word" "32 word" | IPv6Network

fun in_network :: "32 word \<Rightarrow> ip_network \<Rightarrow> bool" where
  "in_network a (IPv4Network network_address netmask) = (a AND netmask = network_address)"
| "in_network a IPv6Network = False"

text \<open>
  \<open>for ip, net in product(ips, exclude_networks): if IPv4Address(ip) in net: stop =
  True; break\<close>: the pairs in the order of \<open>product\<close>, up to the first hit.
\<close>

fun scan_networks :: "(string \<Rightarrow> 32 word option) \<Rightarrow> (string \<times> ip_network) list \<Rightarrow> error + bool" where
  "scan_networks parse [] = Inr False"
| "scan_networks parse ((ip, net) # rest) =
     (case parse ip of
        None \<Rightarrow> Inl AddressValueError
      | Some a \<Rightarrow> if in_network a net then Inr True else scan_networks parse rest)"

section \<open>Neighbor records and the two accumulators\<close>

text \<open>One entry of \<open>result['index']\<close> of the CDP parser.\<close>

record cdp_entry =
  system_name :: "string option"
  device_id :: "string option"
  port_id :: string
  local_interface :: string
  management_addresses :: "string list option"
  interface_addresses :: "string list option"
  software_version :: string
  platform :: string

text \<open>
  One neighbor of the LLDP parser, and its table: interface, then port, then the
  neighbors by name.
\<close>

record lldp_neighbor =
  management_address :: "string option"
  management_address_v4 :: "string option"
  system_description :: string

type_synonym lldp_interfaces = "(string \<times> (string \<times> (string \<times> lldp_neighbor) list) list) list"

record lldp_result =
  total_entries :: int
  lldp_interfaces :: lldp_interfaces

text \<open>What one device reports: \<open>data.get('cdp', [])\<close> and \<open>data.get('lldp', [])\<close>.\<close>

record neighbor_data =
  cdp :: "cdp_entry list"
  lldp :: "lldp_result option"

text \<open>
  An entry of \<open>device_list\<close>. An address is \<open>None\<close> when LLDP reported none: the
  code puts \<open>{ip_address}\<close> into the set all the same.
\<close>

record device_info =
  ports :: "string list"
  ip :: "string option list"
  os :: "string option"
  finder :: "string \<times> string list"

type_synonym device_list = "(string \<times> device_info) list"

text \<open>\<open>connection_dict\<close>: per local interface the list of (dest_host, dest_port).\<close>

type_synonym connection_dict = "(string \<times> (string \<times> string) list) list"

text \<open>\<open>add_to_device_list\<close>\<close>

definition add_to_device_list ::
  "device_list \<Rightarrow> string \<Rightarrow> string \<Rightarrow> string list \<Rightarrow> string option list \<Rightarrow> string option \<Rightarrow> string
     \<Rightarrow> device_list" where
  "add_to_device_list device_list dest_host dest_port int_address mgmt_address os' discover_name =
     (let int_address' = filter (\<lambda>a. Some a \<notin> set mgmt_address) int_address in
      case map_of device_list dest_host of
        None \<Rightarrow>
          device_list @ [(dest_host, \<lparr>ports = [dest_port], ip = mgmt_address, os = os',
                                      finder = (discover_name, int_address')\<rparr>)]
      | Some info \<Rightarrow>
          AList.update dest_host
            (info\<lparr>os := (if os info = None then os' else os info),
                   ports := set_add dest_port (ports info),
                   ip := set_union (ip info) mgmt_address\<rparr>)
            device_list)"

text \<open>\<open>add_to_connection_dict\<close>\<close>

definition add_to_connection_dict ::
  "connection_dict \<Rightarrow> string \<Rightarrow> string \<Rightarrow> string \<Rightarrow> connection_dict" where
  "add_to_connection_dict connection_dict dest_host dest_port interface =
     (case map_of connection_dict interface of
        None \<Rightarrow> connection_dict @ [(interface, [(dest_host, dest_port)])]
      | Some entries \<Rightarrow>
          if (dest_host, dest_port) \<in> set entries then connection_dict
          else AList.update interface (entries @ [(dest_host, dest_port)]) connection_dict)"

section \<open>Processing one neighbor entry\<close>

text \<open>
  What the body of the loop does with one entry: one of the four \<open>continue\<close>
  branches, named after their log lines, or the two \<open>add_to_\<close> calls with the values
  they get.
\<close>

datatype verdict =
    Skip_not_in_testbed
  | Skip_interface
  | Skip_dest_interface
  | Skip_network
  | Keep string string string "string list" "string option list" "string option"

text \<open>
  The name of a CDP neighbor before it is normalized: \<open>connection.get('system_name')\<close>,
  and \<open>connection.get('device_id')\<close> if that is \<open>None\<close> or empty.
\<close>

definition cdp_dest_host :: "cdp_entry \<Rightarrow> string option" where
  "cdp_dest_host connection =
     (case system_name connection of
        None \<Rightarrow> device_id connection
      | Some n \<Rightarrow> if n = [] then device_id connection else Some n)"

text \<open>
  The body of the loop of \<open>_process_cdp_information\<close>. \<open>names\<close> are the keys of
  \<open>testbed.devices\<close>. Matching the name against \<open>domain_filter\<close> raises when the
  name is \<open>None\<close>.
\<close>

definition cdp_verdict ::
  "config \<Rightarrow> (string \<Rightarrow> 32 word option) \<Rightarrow> ip_network list \<Rightarrow> string list \<Rightarrow> cdp_entry
     \<Rightarrow> error + verdict" where
  "cdp_verdict cfg parse exclude_networks names connection =
     (case cdp_dest_host connection of
        None \<Rightarrow> Inl TypeError
      | Some raw \<Rightarrow>
          let dest_host = filter_name raw in
          if only_links cfg \<and> dest_host \<notin> set names then Inr Skip_not_in_testbed
          else
            let dest_port = port_id connection; interface = local_interface connection in
            if str_in interface (exclude_interfaces cfg) then Inr Skip_interface
            else if str_in dest_port (exclude_interfaces cfg) then Inr Skip_dest_interface
            else
              (case interface_addresses connection of
                 None \<Rightarrow> Inl TypeError
               | Some int_address \<Rightarrow>
                   (case management_addresses connection of
                      None \<Rightarrow> Inl TypeError
                    | Some mgmt_address \<Rightarrow>
                        let int_set = remdups int_address; mgmt_set = remdups mgmt_address in
                        (case scan_networks parse (List.product int_set exclude_networks) of
                           Inl e \<Rightarrow> Inl e
                         | Inr stop1 \<Rightarrow>
                             (case scan_networks parse (List.product mgmt_set exclude_networks) of
                                Inl e \<Rightarrow> Inl e
                              | Inr stop2 \<Rightarrow>
                                  if stop1 \<or> stop2 then Inr Skip_network
                                  else Inr (Keep dest_host dest_port interface int_set
                                              (map Some mgmt_set)
                                              (get_os (software_version connection)
                                                 (platform connection))))))))"

text \<open>
  The address of the exclusion check of \<open>_process_lldp_information\<close>:
  \<open>ip_address = neighbor.get('management_address')\<close>, and
  \<open>neighbor.get('management_address_v4')\<close> if that is \<open>None\<close>.
\<close>

definition lldp_ip_address :: "lldp_neighbor \<Rightarrow> string option" where
  "lldp_ip_address neighbor =
     (case management_address neighbor of
        None \<Rightarrow> management_address_v4 neighbor
      | Some a \<Rightarrow> Some a)"

text \<open>
  The body of the inner loop of \<open>_process_lldp_information\<close>, for the local
  \<open>interface\<close>, the \<open>dest_port\<close> and the \<open>neighbors\<close> of that port. The name is
  checked against the testbed as reported and normalized afterwards.
\<close>

definition lldp_verdict ::
  "config \<Rightarrow> (string \<Rightarrow> 32 word option) \<Rightarrow> ip_network list \<Rightarrow> string list \<Rightarrow> string \<Rightarrow> string
     \<Rightarrow> (string \<times> lldp_neighbor) list \<Rightarrow> error + verdict" where
  "lldp_verdict cfg parse exclude_networks names interface dest_port neighbors =
     (case neighbors of
        [] \<Rightarrow> Inl IndexError
      | (dest_host, neighbor) # _ \<Rightarrow>
          if only_links cfg \<and> dest_host \<notin> set names then Inr Skip_not_in_testbed
          else if str_in interface (exclude_interfaces cfg) then Inr Skip_interface
          else if str_in dest_port (exclude_interfaces cfg) then Inr Skip_dest_interface
          else
            let ip_address = lldp_ip_address neighbor;
                keep = Keep (filter_name dest_host) dest_port interface [] [ip_address]
                         (get_os (system_description neighbor) [])
            in
            (case ip_address of
               None \<Rightarrow> Inr keep
             | Some a \<Rightarrow>
                 if exclude_networks = [] then Inr keep
                 else
                   (case scan_networks parse (map (Pair a) exclude_networks) of
                      Inl e \<Rightarrow> Inl e
                    | Inr stop \<Rightarrow> if stop then Inr Skip_network else Inr keep)))"

text \<open>What a verdict does to \<open>device_list\<close> and \<open>connection_dict\<close>.\<close>

fun apply_verdict :: "string \<Rightarrow> verdict \<Rightarrow> device_list \<times> connection_dict \<Rightarrow> device_list \<times> connection_dict" where
  "apply_verdict device_name (Keep dest_host dest_port interface int_set mgmt_set os') (dl, cd) =
     (add_to_device_list dl dest_host dest_port int_set mgmt_set os' device_name,
      add_to_connection_dict cd dest_host dest_port interface)"
| "apply_verdict device_name _ (dl, cd) = (dl, cd)"

text \<open>\<open>_process_cdp_information\<close>: the entries of \<open>result['index']\<close> in order.\<close>

fun process_cdp_information ::
  "config \<Rightarrow> (string \<Rightarrow> 32 word option) \<Rightarrow> ip_network list \<Rightarrow> string list \<Rightarrow> string
     \<Rightarrow> cdp_entry list \<Rightarrow> device_list \<times> connection_dict \<Rightarrow> error + device_list \<times> connection_dict" where
  "process_cdp_information cfg parse nets names device_name [] acc = Inr acc"
| "process_cdp_information cfg parse nets names device_name (connection # rest) acc =
     (case cdp_verdict cfg parse nets names connection of
        Inl e \<Rightarrow> Inl e
      | Inr v \<Rightarrow>
          process_cdp_information cfg parse nets names device_name rest
            (apply_verdict device_name v acc))"

text \<open>
  \<open>_process_lldp_information\<close>: the inner loop over the ports of one interface, and
  the outer loop over the interfaces.
\<close>

fun process_lldp_ports ::
  "config \<Rightarrow> (string \<Rightarrow> 32 word option) \<Rightarrow> ip_network list \<Rightarrow> string list \<Rightarrow> string \<Rightarrow> string
     \<Rightarrow> (string \<times> (string \<times> lldp_neighbor) list) list \<Rightarrow> device_list \<times> connection_dict
     \<Rightarrow> error + device_list \<times> connection_dict" where
  "process_lldp_ports cfg parse nets names device_name interface [] acc = Inr acc"
| "process_lldp_ports cfg parse nets names device_name interface ((dest_port, neighbors) # rest) acc =
     (case lldp_verdict cfg parse nets names interface dest_port neighbors of
        Inl e \<Rightarrow> Inl e
      | Inr v \<Rightarrow>
          process_lldp_ports cfg parse nets names device_name interface rest
            (apply_verdict device_name v acc))"

fun process_lldp_information ::
  "config \<Rightarrow> (string \<Rightarrow> 32 word option) \<Rightarrow> ip_network list \<Rightarrow> string list \<Rightarrow> string
     \<Rightarrow> lldp_interfaces \<Rightarrow> device_list \<times> connection_dict \<Rightarrow> error + device_list \<times> connection_dict" where
  "process_lldp_information cfg parse nets names device_name [] acc = Inr acc"
| "process_lldp_information cfg parse nets names device_name ((interface, port_list) # rest) acc =
     (case process_lldp_ports cfg parse nets names device_name interface port_list acc of
        Inl e \<Rightarrow> Inl e
      | Inr acc' \<Rightarrow> process_lldp_information cfg parse nets names device_name rest acc')"

section \<open>The testbed: devices, interfaces and links\<close>

text \<open>
  Modelled from the spec: the testbed, device, interface and link objects of the topology
  library, which is not in the source. A device is identified by its name and owns its
  interfaces; an interface is identified by its device and its name and holds a
  back-reference to its link; a link holds its name and the list of its member interfaces;
  the current link count is the number of links of the graph, and links are never deleted.
  A link is referred to by its position in \<open>links\<close>.
\<close>

type_synonym interface_id = "string \<times> string"

record interface =
  interface_type :: string
  interface_link :: "nat option"
  interface_ipv4 :: "string option"

record link =
  link_name :: string
  link_interfaces :: "interface_id list"

text \<open>
  A connection of a device. An absent key and the value \<open>None\<close> are both \<open>None\<close>
  for \<open>protocol\<close> and \<open>connection_ip\<close>; for the proxy, which the code tests with
  \<open>'proxy' in connection_detail\<close>, absence is \<open>None\<close> and the value \<open>None\<close> is
  \<open>ProxyNone\<close>. A proxy is a device name or a list of steps, each a device and a
  command. The three command formats of \<open>write_proxy_chain\<close> are kept apart instead of
  being printed into a string; \<open>Command\<close> is a command of the input file.
\<close>

datatype command =
    Command string
  | Ssh_to "string option"
  | Ssh_user_at string "string option"
  | Ssh_user_at_set string "string list"

datatype proxy = ProxyNone | ProxyName string | ProxyChain "(string \<times> command) list"

record connection =
  protocol :: "string option"
  connection_ip :: "string option"
  proxy :: "proxy option"

type_synonym credentials = "(string \<times> (string \<times> string) list) list"

record device =
  device_type :: string
  device_os :: "string option"
  device_credentials :: credentials
  connections :: "(string \<times> connection) list"
  interfaces :: "(string \<times> interface) list"

record testbed =
  devices :: "(string \<times> device) list"
  links :: "link list"

text \<open>\<open>testbed.devices[dev].interfaces[name]\<close>; a missing key raises.\<close>

definition get_interface :: "testbed \<Rightarrow> interface_id \<Rightarrow> error + interface" where
  "get_interface tb p =
     (case map_of (devices tb) (fst p) of
        None \<Rightarrow> Inl KeyError
      | Some d \<Rightarrow>
          (case map_of (interfaces d) (snd p) of
             None \<Rightarrow> Inl KeyError
           | Some i \<Rightarrow> Inr i))"

text \<open>
  Modelled from the spec: \<open>Interface(name, type = ...)\<close> followed by
  \<open>interface_a.device = device\<close> gives the device a new interface of that type, in no
  link and without address.
\<close>

definition add_interface :: "string \<Rightarrow> string \<Rightarrow> device \<Rightarrow> device" where
  "add_interface name type_name d =
     d\<lparr>interfaces := interfaces d @
          [(name, \<lparr>interface_type = type_name, interface_link = None, interface_ipv4 = None\<rparr>)]\<rparr>"

text \<open>
  Modelled from the spec: \<open>link.connect_interface(interface)\<close>, for the link at
  position \<open>l\<close>, appends the interface to the members of the link and sets the
  back-reference of the interface to the link.
\<close>

definition connect_interface :: "nat \<Rightarrow> interface_id \<Rightarrow> testbed \<Rightarrow> testbed" where
  "connect_interface l p tb =
     tb\<lparr>links := (links tb)[l := (links tb ! l)\<lparr>link_interfaces := link_interfaces (links tb ! l) @ [p]\<rparr>],
        devices := AList.map_entry (fst p)
          (\<lambda>d. d\<lparr>interfaces := AList.map_entry (snd p)
                  (\<lambda>i. i\<lparr>interface_link := Some l\<rparr>) (interfaces d)\<rparr>)
          (devices tb)\<rparr>"

text \<open>Decimal digits of a number, for \<open>'Link_{num}'.format(num = ...)\<close>.\<close>

fun string_of_nat :: "nat \<Rightarrow> string" where
  "string_of_nat n =
     (if n < 10 then [''0123456789'' ! n]
      else string_of_nat (n div 10) @ [''0123456789'' ! (n mod 10)])"

declare string_of_nat.simps [simp del]

text \<open>
  Modelled from the spec: \<open>Link(name, interfaces = int_list)\<close> is a new link of the
  graph, to which the interfaces are connected in order.
\<close>

definition new_link :: "string \<Rightarrow> interface_id list \<Rightarrow> testbed \<Rightarrow> testbed" where
  "new_link name int_list tb =
     fold (connect_interface (length (links tb))) int_list
       (tb\<lparr>links := links tb @ [\<lparr>link_name = name, link_interfaces = []\<rparr>]\<rparr>)"

section \<open>Neighbor data of the unvisited devices\<close>

text \<open>
  The loop at the end of \<open>get_device_connections\<close>: an interface of
  \<open>connection_dict\<close> that the visited device does not have is created, with the
  lower-cased match of \<open>interface_filter\<close> as its type; \<open>type_name[0]\<close> raises when
  there is no match.
\<close>

fun add_connection_interfaces :: "string \<Rightarrow> string list \<Rightarrow> testbed \<Rightarrow> error + testbed" where
  "add_connection_interfaces device_name [] tb = Inr tb"
| "add_connection_interfaces device_name (interface # rest) tb =
     (case map_of (devices tb) device_name of
        None \<Rightarrow> Inl KeyError
      | Some d \<Rightarrow>
          if map_of (interfaces d) interface \<noteq> None
          then add_connection_interfaces device_name rest tb
          else
            (case interface_filter_match interface of
               None \<Rightarrow> Inl TypeError
             | Some type_name \<Rightarrow>
                 add_connection_interfaces device_name rest
                   (tb\<lparr>devices := AList.update device_name
                        (add_interface interface (lower type_name) d) (devices tb)\<rparr>)))"

text \<open>
  \<open>get_device_connections\<close>: the CDP entries if there are any, the LLDP table if
  there is one and its \<open>total_entries\<close> is not 0, then the missing interfaces. It
  returns \<open>connection_dict\<close>; \<open>device_list\<close> and the testbed are changed in place.
\<close>

definition get_device_connections ::
  "config \<Rightarrow> (string \<Rightarrow> 32 word option) \<Rightarrow> ip_network list \<Rightarrow> neighbor_data \<Rightarrow> string
     \<Rightarrow> device_list \<Rightarrow> testbed \<Rightarrow> error + connection_dict \<times> device_list \<times> testbed" where
  "get_device_connections cfg parse exclude_networks data device_name device_list tb =
     (let names = map fst (devices tb) in
      case process_cdp_information cfg parse exclude_networks names device_name (cdp data)
             (device_list, []) of
        Inl e \<Rightarrow> Inl e
      | Inr acc \<Rightarrow>
          (case (case lldp data of
                   None \<Rightarrow> Inr acc
                 | Some result \<Rightarrow>
                     if total_entries result \<noteq> 0
                     then process_lldp_information cfg parse exclude_networks names device_name
                            (lldp_interfaces result) acc
                     else Inr acc) of
             Inl e \<Rightarrow> Inl e
           | Inr (device_list', connection_dict) \<Rightarrow>
               (case add_connection_interfaces device_name (map fst connection_dict) tb of
                  Inl e \<Rightarrow> Inl e
                | Inr tb' \<Rightarrow> Inr (connection_dict, device_list', tb'))))"

text \<open>
  Modelled from the spec: the device manager's \<open>get_neighbor_info\<close>, which is not in
  the source, gives for each device its CDP and LLDP data, empty where the fetch failed;
  it is the parameter \<open>neighbor_info\<close>. The function is the second loop of
  \<open>process_neigbor_data\<close>, over the results of the devices that were fetched.
\<close>

fun process_results ::
  "config \<Rightarrow> (string \<Rightarrow> 32 word option) \<Rightarrow> ip_network list \<Rightarrow> (string \<Rightarrow> neighbor_data)
     \<Rightarrow> string list \<Rightarrow> (string \<times> connection_dict) list \<times> device_list \<times> testbed
     \<Rightarrow> error + (string \<times> connection_dict) list \<times> device_list \<times> testbed" where
  "process_results cfg parse nets neighbor_info [] acc = Inr acc"
| "process_results cfg parse nets neighbor_info (device # rest) (conn_dict, device_list, tb) =
     (case get_device_connections cfg parse nets (neighbor_info device) device device_list tb of
        Inl e \<Rightarrow> Inl e
      | Inr (connection_dict, device_list', tb') \<Rightarrow>
          process_results cfg parse nets neighbor_info rest
            (AList.update device connection_dict conn_dict, device_list', tb'))"

text \<open>
  \<open>process_neigbor_data\<close>: every device of the testbed that is not in
  \<open>visited_devices\<close> is added to it and fetched. The result is \<open>conn_dict\<close>, with
  the new \<open>device_list\<close>, testbed and \<open>visited_devices\<close>.
\<close>

definition process_neigbor_data ::
  "config \<Rightarrow> (string \<Rightarrow> 32 word option) \<Rightarrow> ip_network list \<Rightarrow> (string \<Rightarrow> neighbor_data)
     \<Rightarrow> testbed \<Rightarrow> device_list \<Rightarrow> string list
     \<Rightarrow> error + (string \<times> connection_dict) list \<times> device_list \<times> testbed \<times> string list" where
  "process_neigbor_data cfg parse nets neighbor_info tb device_list visited_devices =
     (let dev_to_test = filter (\<lambda>device. device \<notin> set visited_devices) (map fst (devices tb)) in
      case process_results cfg parse nets neighbor_info dev_to_test ([], device_list, tb) of
        Inl e \<Rightarrow> Inl e
      | Inr (conn_dict, device_list', tb') \<Rightarrow>
          Inr (conn_dict, device_list', tb', visited_devices @ dev_to_test))"

text \<open>
  The device names that the neighbor data of one device can bring into
  \<open>device_list\<close>: the normalized names of its CDP entries and of the first neighbor
  of each LLDP port.
\<close>

definition reported_names :: "neighbor_data \<Rightarrow> string list" where
  "reported_names data =
     map filter_name (List.map_filter cdp_dest_host (cdp data)) @
     (case lldp data of
        None \<Rightarrow> []
      | Some result \<Rightarrow>
          concat (map (\<lambda>(interface, port_list).
                    concat (map (\<lambda>(dest_port, neighbors). map (\<lambda>n. filter_name (fst n)) (take 1 neighbors))
                              port_list))
                  (lldp_interfaces result)))"

section \<open>New devices\<close>

text \<open>
  The search loop of \<open>write_proxy_chain\<close>: the first connection other than
  \<open>defaults\<close> with the protocol ssh and a proxy.
\<close>

fun find_proxy_connection :: "(string \<times> connection) list \<Rightarrow> (string \<times> connection) option" where
  "find_proxy_connection [] = None"
| "find_proxy_connection ((conn, detail) # rest) =
     (if conn = ''defaults'' then find_proxy_connection rest
      else if protocol detail = Some ''ssh'' \<and> proxy detail \<noteq> None then Some (conn, detail)
      else find_proxy_connection rest)"

text \<open>
  \<open>write_proxy_chain(finder_name, testbed, credentials, ip)\<close>, where \<open>ip\<close> is the
  address set of the finder. A proxy list of the finder is changed in place and returned:
  the testbed returned has the new list in the finder's connection. (The list in the new
  device's connection is the same object in the program and a copy here.)
\<close>

definition write_proxy_chain ::
  "string \<Rightarrow> testbed \<Rightarrow> credentials \<Rightarrow> string list \<Rightarrow> error + proxy \<times> testbed" where
  "write_proxy_chain finder_name tb creds ip_set =
     (case map_of (devices tb) finder_name of
        None \<Rightarrow> Inl KeyError
      | Some finder_device \<Rightarrow>
          (case map_of creds ''default'' of
             None \<Rightarrow> Inl KeyError
           | Some default_credential \<Rightarrow>
               (case map_of default_credential ''username'' of
                  None \<Rightarrow> Inl KeyError
                | Some user \<Rightarrow>
                    (case find_proxy_connection (connections finder_device) of
                       None \<Rightarrow> Inr (ProxyName finder_name, tb)
                     | Some (conn, detail) \<Rightarrow>
                         (case proxy detail of
                            None \<Rightarrow> Inr (ProxyName finder_name, tb)
                          | Some ProxyNone \<Rightarrow> Inr (ProxyName finder_name, tb)
                          | Some (ProxyChain steps) \<Rightarrow>
                              if steps = [] then Inl IndexError
                              else
                                let new_proxy = ProxyChain
                                      (butlast steps @
                                       [(fst (last steps), Ssh_user_at user (connection_ip detail)),
                                        (finder_name, Ssh_user_at_set user ip_set)])
                                in Inr (new_proxy,
                                        tb\<lparr>devices := AList.update finder_name
                                          (finder_device\<lparr>connections := AList.update conn
                                             (detail\<lparr>proxy := Some new_proxy\<rparr>)
                                             (connections finder_device)\<rparr>)
                                          (devices tb)\<rparr>)
                          | Some (ProxyName p) \<Rightarrow>
                              Inr (ProxyChain [(p, Ssh_to (connection_ip detail)),
                                               (finder_name, Ssh_user_at_set user ip_set)], tb))))))"

text \<open>
  The two nested loops that create the connections of a new device,
  \<open>connections['ssh' + proxy] = {'protocol': 'ssh', 'ip': ip, 'proxy': proxy}\<close>.
  The variable \<open>ip\<close> of \<open>_write_devices_into_testbed\<close> is \<open>None\<close> while it is
  unbound and keeps the last address it was bound to.
\<close>

definition proxy_connections ::
  "string list \<Rightarrow> string option list \<Rightarrow> (string \<times> connection) list \<times> string option option
     \<Rightarrow> (string \<times> connection) list \<times> string option option" where
  "proxy_connections proxy_set ips =
     fold (\<lambda>ip' (conns, _).
             (fold (\<lambda>p. AList.update (''ssh'' @ p)
                      \<lparr>protocol = Some ''ssh'', connection_ip = ip', proxy = Some (ProxyName p)\<rparr>)
                proxy_set conns,
              Some ip'))
       ips"

text \<open>
  The loops that create interfaces: a name that the device does not have (for a new
  device: every port) gets an interface with the lower-cased match of
  \<open>interface_filter\<close> as its type.
\<close>

fun add_interfaces :: "string list \<Rightarrow> device \<Rightarrow> error + device" where
  "add_interfaces [] d = Inr d"
| "add_interfaces (interface # rest) d =
     (if map_of (interfaces d) interface \<noteq> None then add_interfaces rest d
      else
        (case interface_filter_match interface of
           None \<Rightarrow> Inl TypeError
         | Some type_name \<Rightarrow> add_interfaces rest (add_interface interface (lower type_name) d)))"

text \<open>
  The branch \<open>new_dev not in testbed.devices\<close> of the loop of
  \<open>_write_devices_into_testbed\<close>: the new device, the testbed (which
  \<open>write_proxy_chain\<close> may have changed) and the variable \<open>ip\<close>.
\<close>

definition write_new_device ::
  "string list \<Rightarrow> string \<Rightarrow> device_info \<Rightarrow> testbed \<Rightarrow> string option option
     \<Rightarrow> error + device \<times> testbed \<times> string option option" where
  "write_new_device proxy_set new_dev info tb ip_var =
     (case map_of (devices tb) (fst (finder info)) of
        None \<Rightarrow> Inl KeyError
      | Some finder_dev \<Rightarrow>
          let creds = device_credentials finder_dev;
              (conns, ip_var') = proxy_connections proxy_set (ip info) ([], ip_var)
          in
          (case (if snd (finder info) \<noteq> [] then
                   (case write_proxy_chain (fst (finder info)) tb creds (snd (finder info)) of
                      Inl e \<Rightarrow> Inl e
                    | Inr (finder_proxy, tb') \<Rightarrow>
                        (case ip_var' of
                           None \<Rightarrow> Inl UnboundLocalError
                         | Some ip' \<Rightarrow>
                             Inr (AList.update ''finder_proxy''
                                    \<lparr>protocol = Some ''ssh'', connection_ip = ip',
                                     proxy = Some finder_proxy\<rparr> conns,
                                  tb')))
                 else Inr (conns, tb)) of
             Inl e \<Rightarrow> Inl e
           | Inr (conns', tb') \<Rightarrow>
               (case add_interfaces (ports info)
                       \<lparr>device_type = ''device'', device_os = os info, device_credentials = creds,
                        connections = conns', interfaces = []\<rparr> of
                  Inl e \<Rightarrow> Inl e
                | Inr dev \<Rightarrow> Inr (dev, tb', ip_var'))))"

text \<open>
  The other branch, for a device of the testbed: its missing interfaces are added, those
  of \<open>device_list\<close>, or with \<open>add_unconnected_interfaces\<close> those that the device
  reports. \<open>show_interfaces\<close> stands for the two \<open>parse\<close> calls on the device:
  the interface names, or \<open>None\<close> when the second call raises as well.
\<close>

definition write_known_device ::
  "config \<Rightarrow> (string \<Rightarrow> string list option) \<Rightarrow> string \<Rightarrow> device_info \<Rightarrow> device \<Rightarrow> error + device" where
  "write_known_device cfg show_interfaces new_dev info d =
     (case (if \<not> add_unconnected_interfaces cfg then Some (ports info) else show_interfaces new_dev) of
        None \<Rightarrow> Inl ParserError
      | Some names \<Rightarrow> add_interfaces names d)"

text \<open>
  The loop of \<open>_write_devices_into_testbed\<close> over \<open>device_list\<close>, with the
  testbed, \<open>new_devices\<close> and the variable \<open>ip\<close>.
\<close>

fun write_devices_loop ::
  "config \<Rightarrow> (string \<Rightarrow> string list option) \<Rightarrow> string list \<Rightarrow> device_list
     \<Rightarrow> testbed \<times> (string \<times> device) list \<times> string option option
     \<Rightarrow> error + testbed \<times> (string \<times> device) list" where
  "write_devices_loop cfg show_interfaces proxy_set [] (tb, new_devices, ip_var) =
     Inr (tb, new_devices)"
| "write_devices_loop cfg show_interfaces proxy_set ((new_dev, info) # rest) (tb, new_devices, ip_var) =
     (case map_of (devices tb) new_dev of
        None \<Rightarrow>
          (case write_new_device proxy_set new_dev info tb ip_var of
             Inl e \<Rightarrow> Inl e
           | Inr (dev, tb', ip_var') \<Rightarrow>
               write_devices_loop cfg show_interfaces proxy_set rest
                 (tb', AList.update new_dev dev new_devices, ip_var'))
      | Some d \<Rightarrow>
          (case write_known_device cfg show_interfaces new_dev info d of
             Inl e \<Rightarrow> Inl e
           | Inr d' \<Rightarrow>
               write_devices_loop cfg show_interfaces proxy_set rest
                 (tb\<lparr>devices := AList.update new_dev d' (devices tb)\<rparr>, new_devices, ip_var)))"

text \<open>\<open>_write_devices_into_testbed\<close>; \<open>ip\<close> is unbound at the start of a call.\<close>

definition write_devices_into_testbed ::
  "config \<Rightarrow> (string \<Rightarrow> string list option) \<Rightarrow> string list \<Rightarrow> device_list \<Rightarrow> testbed
     \<Rightarrow> error + testbed \<times> (string \<times> device) list" where
  "write_devices_into_testbed cfg show_interfaces proxy_set device_list tb =
     write_devices_loop cfg show_interfaces proxy_set device_list (tb, [], None)"

section \<open>Link commit\<close>

text \<open>
  The loop of the branch \<open>interface.link is None\<close> of
  \<open>_write_connections_to_testbed\<close>: the remote interfaces of the entries are looked up
  and appended to \<open>int_list\<close> unless they are in it.
\<close>

fun collect_interfaces :: "testbed \<Rightarrow> (string \<times> string) list \<Rightarrow> interface_id list \<Rightarrow> error + interface_id list" where
  "collect_interfaces tb [] int_list = Inr int_list"
| "collect_interfaces tb ((dev, dest_int) # rest) int_list =
     (case get_interface tb (dev, dest_int) of
        Inl e \<Rightarrow> Inl e
      | Inr _ \<Rightarrow>
          collect_interfaces tb rest
            (if (dev, dest_int) \<in> set int_list then int_list else int_list @ [(dev, dest_int)]))"

text \<open>
  The loop of the other branch: the remote interfaces that are not members of the link of
  the local interface are connected to it.
\<close>

fun extend_link :: "nat \<Rightarrow> (string \<times> string) list \<Rightarrow> testbed \<Rightarrow> error + testbed" where
  "extend_link l [] tb = Inr tb"
| "extend_link l ((dev, dest_int) # rest) tb =
     (case get_interface tb (dev, dest_int) of
        Inl e \<Rightarrow> Inl e
      | Inr _ \<Rightarrow>
          extend_link l rest
            (if (dev, dest_int) \<in> set (link_interfaces (links tb ! l)) then tb
             else connect_interface l (dev, dest_int) tb))"

text \<open>The body of the inner loop: the entries of one local interface.\<close>

definition write_interface_connections ::
  "string \<Rightarrow> string \<Rightarrow> (string \<times> string) list \<Rightarrow> testbed \<Rightarrow> error + testbed" where
  "write_interface_connections device interface_name entries tb =
     (case get_interface tb (device, interface_name) of
        Inl e \<Rightarrow> Inl e
      | Inr interface \<Rightarrow>
          (case interface_link interface of
             None \<Rightarrow>
               (case collect_interfaces tb entries [(device, interface_name)] of
                  Inl e \<Rightarrow> Inl e
                | Inr int_list \<Rightarrow>
                    Inr (new_link (''Link_'' @ string_of_nat (length (links tb))) int_list tb))
           | Some l \<Rightarrow> extend_link l entries tb))"

fun write_device_connections :: "string \<Rightarrow> connection_dict \<Rightarrow> testbed \<Rightarrow> error + testbed" where
  "write_device_connections device [] tb = Inr tb"
| "write_device_connections device ((interface_name, entries) # rest) tb =
     (case write_interface_connections device interface_name entries tb of
        Inl e \<Rightarrow> Inl e
      | Inr tb' \<Rightarrow> write_device_connections device rest tb')"

text \<open>\<open>_write_connections_to_testbed\<close>\<close>

fun write_connections_to_testbed :: "(string \<times> connection_dict) list \<Rightarrow> testbed \<Rightarrow> error + testbed" where
  "write_connections_to_testbed [] tb = Inr tb"
| "write_connections_to_testbed ((device, cd) # rest) tb =
     (case write_device_connections device cd tb of
        Inl e \<Rightarrow> Inl e
      | Inr tb' \<Rightarrow> write_connections_to_testbed rest tb')"

text \<open>
  The link back-reference of an interface (\<open>None\<close> also for an interface that does not
  exist), and the graph properties of the claims: every back-reference is a link of the
  graph and every member of a link refers back to it; no interface is a member of two
  links.
\<close>

definition link_of :: "testbed \<Rightarrow> interface_id \<Rightarrow> nat option" where
  "link_of tb p = (case get_interface tb p of Inl _ \<Rightarrow> None | Inr i \<Rightarrow> interface_link i)"

definition links_consistent :: "testbed \<Rightarrow> bool" where
  "links_consistent tb \<longleftrightarrow>
     (\<forall>l < length (links tb). \<forall>p \<in> set (link_interfaces (links tb ! l)). link_of tb p = Some l)"

definition at_most_one_link :: "testbed \<Rightarrow> bool" where
  "at_most_one_link tb \<longleftrightarrow>
     (\<forall>l < length (links tb). \<forall>l' < length (links tb).
        l \<noteq> l' \<longrightarrow> set (link_interfaces (links tb ! l)) \<inter> set (link_interfaces (links tb ! l')) = {})"

text \<open>
  References cannot dangle in the program; in the model, where a link is a position in
  \<open>links\<close>, that is a property of the state: every back-reference is a position of
  the list.
\<close>

definition links_wf :: "testbed \<Rightarrow> bool" where
  "links_wf tb \<longleftrightarrow>
     (\<forall>(name, d) \<in> set (devices tb). \<forall>(n, i) \<in> set (interfaces d).
        \<forall>l. interface_link i = Some l \<longrightarrow> l < length (links tb))"

text \<open>
  A connection record as the sequence of its steps, one per device and local interface in
  the order of the two loops of \<open>_write_connections_to_testbed\<close>, and the commit of
  such a sequence.
\<close>

type_synonym commit_step = "string \<times> string \<times> (string \<times> string) list"

definition connection_steps :: "(string \<times> connection_dict) list \<Rightarrow> commit_step list" where
  "connection_steps result =
     concat (map (\<lambda>(device, cd). map (\<lambda>(interface_name, entries). (device, interface_name, entries)) cd)
               result)"

fun write_steps :: "commit_step list \<Rightarrow> testbed \<Rightarrow> error + testbed" where
  "write_steps [] tb = Inr tb"
| "write_steps ((device, interface_name, entries) # rest) tb =
     (case write_interface_connections device interface_name entries tb of
        Inl e \<Rightarrow> Inl e
      | Inr tb' \<Rightarrow> write_steps rest tb')"

text \<open>
  A commit re-links no interface when each remote interface of a step is, at that step,
  in no link or in the link of the local interface. An interface is linked with its
  entries when it is in a link that has all the remote interfaces of the entries.
\<close>

fun no_relink :: "commit_step list \<Rightarrow> testbed \<Rightarrow> bool" where
  "no_relink [] tb = True"
| "no_relink ((device, interface_name, entries) # rest) tb =
     ((\<forall>r \<in> set entries. link_of tb r = None \<or> link_of tb r = link_of tb (device, interface_name)) \<and>
      (case write_interface_connections device interface_name entries tb of
         Inl e \<Rightarrow> True
       | Inr tb' \<Rightarrow> no_relink rest tb'))"

definition entries_linked :: "testbed \<Rightarrow> commit_step \<Rightarrow> bool" where
  "entries_linked tb step \<longleftrightarrow>
     (case step of (device, interface_name, entries) \<Rightarrow>
        \<exists>l < length (links tb). link_of tb (device, interface_name) = Some l \<and>
          (\<forall>r \<in> set entries. (\<exists>i. get_interface tb r = Inr i) \<and>
             r \<in> set (link_interfaces (links tb ! l))))"

text \<open>From one graph to a later one: no link is lost, no member, no interface, no back-reference.\<close>

definition keeps_links :: "testbed \<Rightarrow> testbed \<Rightarrow> bool" where
  "keeps_links tb tb' \<longleftrightarrow>
     length (links tb) \<le> length (links tb') \<and>
     (\<forall>l < length (links tb). set (link_interfaces (links tb ! l)) \<subseteq> set (link_interfaces (links tb' ! l))) \<and>
     (\<forall>q. (\<exists>i. get_interface tb q = Inr i) \<longrightarrow> (\<exists>i. get_interface tb' q = Inr i)) \<and>
     (\<forall>q l. link_of tb q = Some l \<longrightarrow> link_of tb' q = Some l)"

text \<open>
  A commit keeps the links of the local interfaces of a record when no step moves the
  local interface of an earlier step into another link: a remote interface of a step that
  is the local interface of an earlier step is, at that step, in the link of the step's
  local interface already, by its back-reference or as a member. \<open>locals\<close> are the
  local interfaces of the steps committed so far.
\<close>

fun keeps_local_links :: "interface_id list \<Rightarrow> commit_step list \<Rightarrow> testbed \<Rightarrow> bool" where
  "keeps_local_links locals [] tb = True"
| "keeps_local_links locals ((device, interface_name, entries) # rest) tb =
     ((\<forall>r \<in> set entries. r \<in> set locals \<longrightarrow>
          (case link_of tb (device, interface_name) of
             None \<Rightarrow> False
           | Some l \<Rightarrow> link_of tb r = Some l \<or> r \<in> set (link_interfaces (links tb ! l)))) \<and>
      (case write_interface_connections device interface_name entries tb of
         Inl e \<Rightarrow> True
       | Inr tb' \<Rightarrow> keeps_local_links ((device, interface_name) # locals) rest tb'))"

text \<open>
  From one graph to a later one: no link is lost, no member and no interface (a
  back-reference may change). The size of the links of a graph: the number of links and of
  memberships.
\<close>

definition keeps_members :: "testbed \<Rightarrow> testbed \<Rightarrow> bool" where
  "keeps_members tb tb' \<longleftrightarrow>
     length (links tb) \<le> length (links tb') \<and>
     (\<forall>l < length (links tb). set (link_interfaces (links tb ! l)) \<subseteq> set (link_interfaces (links tb' ! l))) \<and>
     (\<forall>q. (\<exists>i. get_interface tb q = Inr i) \<longrightarrow> (\<exists>i. get_interface tb' q = Inr i))"

definition link_size :: "testbed \<Rightarrow> nat" where
  "link_size tb = length (links tb) + sum_list (map (\<lambda>lk. length (link_interfaces lk)) (links tb))"

section \<open>The discovery loop\<close>

text \<open>
  What a run is given besides the testbed: the arguments, the parser of addresses, the
  parsed \<open>exclude_networks\<close>, the neighbor data and the interface names that the
  devices report, and the \<open>proxy_set\<close> that the device manager reads from the
  testbed file.
\<close>

record environment =
  env_config :: config
  env_parse :: "string \<Rightarrow> 32 word option"
  env_networks :: "ip_network list"
  env_neighbor_info :: "string \<Rightarrow> neighbor_data"
  env_show_interfaces :: "string \<Rightarrow> string list option"
  env_proxy_set :: "string list"

text \<open>
  Modelled from the spec: \<open>visited_devices\<close> belongs to the device manager, which is
  not in the source; it is empty at the start and only \<open>process_neigbor_data\<close> adds
  to it. The state of the loop of \<open>_generate\<close> is the testbed,
  \<open>dev_man.visited_devices\<close> and \<open>device_list\<close>.
\<close>

record run_state =
  state_testbed :: testbed
  visited_devices :: "string list"
  state_device_list :: device_list

text \<open>
  Modelled from the spec: connecting the devices and toggling the discovery protocols,
  which the device manager does at the start of a round and which is not in the source,
  changes nothing of this state; \<open>testbed.add_device\<close> adds a device under its name.
  The function is the body of the loop, up to the test of \<open>only_links\<close>: the neighbor
  data of the unvisited devices, the new devices, which are added to the testbed, and the
  links.
\<close>

definition discovery_round :: "environment \<Rightarrow> run_state \<Rightarrow> error + run_state" where
  "discovery_round env s =
     (case process_neigbor_data (env_config env) (env_parse env) (env_networks env)
             (env_neighbor_info env) (state_testbed s) (state_device_list s) (visited_devices s) of
        Inl e \<Rightarrow> Inl e
      | Inr (result, device_list, tb, visited) \<Rightarrow>
          (case write_devices_into_testbed (env_config env) (env_show_interfaces env)
                  (env_proxy_set env) device_list tb of
             Inl e \<Rightarrow> Inl e
           | Inr (tb', new_devices) \<Rightarrow>
               (case write_connections_to_testbed result
                       (tb'\<lparr>devices := devices tb' @ new_devices\<rparr>) of
                  Inl e \<Rightarrow> Inl e
                | Inr tb'' \<Rightarrow>
                    Inr \<lparr>state_testbed = tb'', visited_devices = visited,
                         state_device_list = device_list\<rparr>)))"

text \<open>
  The loop \<open>while len(testbed.devices) > len(dev_man.visited_devices)\<close>, with fuel:
  \<open>None\<close> when the fuel runs out, otherwise what the loop ends with, an exception or
  the last state, and the number of rounds it made.
\<close>

fun generate_loop :: "environment \<Rightarrow> nat \<Rightarrow> run_state \<Rightarrow> nat \<Rightarrow> (error + run_state \<times> nat) option" where
  "generate_loop env 0 s rounds = None"
| "generate_loop env (Suc fuel) s rounds =
     (if length (devices (state_testbed s)) > length (visited_devices s) then
        (case discovery_round env s of
           Inl e \<Rightarrow> Some (Inl e)
         | Inr s' \<Rightarrow>
             if only_links (env_config env) then Some (Inr (s', Suc rounds))
             else generate_loop env fuel s' (Suc rounds))
      else Some (Inr (s, rounds)))"

text \<open>The loop from the start of \<open>_generate\<close>.\<close>

definition discover :: "environment \<Rightarrow> nat \<Rightarrow> testbed \<Rightarrow> (error + run_state \<times> nat) option" where
  "discover env fuel tb =
     generate_loop env fuel \<lparr>state_testbed = tb, visited_devices = [], state_device_list = []\<rparr> 0"

text \<open>
  What the loop keeps true of its state, for a set \<open>U\<close> of device names: the devices
  and the visited devices are without duplicates, as the keys of a dictionary and the
  elements of a set are, every visited device is a device of the testbed, and the names
  of \<open>device_list\<close> are in \<open>U\<close>.
\<close>

definition run_invariant :: "string set \<Rightarrow> run_state \<Rightarrow> bool" where
  "run_invariant U s \<longleftrightarrow>
     distinct (map fst (devices (state_testbed s))) \<and>
     distinct (visited_devices s) \<and>
     set (visited_devices s) \<subseteq> set (map fst (devices (state_testbed s))) \<and>
     fst ` set (state_device_list s) \<subseteq> U"

section \<open>The output dictionary\<close>

text \<open>
  The configuration as loaded from the testbed file. A device entry of the file is kept
  as it is (\<open>Existing\<close>, of any content); a device entry that \<open>create_yaml_dict\<close>
  writes has the four keys \<open>type\<close>, \<open>os\<close>, \<open>credentials\<close> and
  \<open>connections\<close>. An interface entry is a mapping from keys to scalars. A topology
  entry of a device holds its \<open>interfaces\<close> (\<open>None\<close> when the key is missing) and
  whatever else the file has there.
\<close>

datatype yaml_connection =
    Yaml_connection "string option" "string option" proxy
  | Yaml_defaults string

record generated_device =
  yaml_type :: string
  yaml_os :: "string option"
  yaml_credentials :: credentials
  yaml_connections :: "(string \<times> yaml_connection) list"

datatype 'd yaml_device = Existing 'd | Generated generated_device

type_synonym yaml_interface = "(string \<times> string) list"

record 'o topology_entry =
  entry_interfaces :: "(string \<times> yaml_interface) list option"
  entry_other :: 'o

record ('d, 'o) testbed_yaml =
  yaml_devices :: "(string \<times> 'd yaml_device) list"
  yaml_topology :: "(string \<times> 'o topology_entry) list option"

text \<open>\<open>d.update(other)\<close> on dictionaries.\<close>

definition dict_update :: "('k \<times> 'v) list \<Rightarrow> ('k \<times> 'v) list \<Rightarrow> ('k \<times> 'v) list" where
  "dict_update d other = fold (\<lambda>(k, v). AList.update k v) other d"

text \<open>
  The loop over \<open>device.connections\<close>, with the dictionary written so far and the loop
  variable \<open>connect\<close>, which is a local of the function and keeps its value from one
  device to the next.
\<close>

definition write_yaml_connections ::
  "(string \<times> connection) list \<Rightarrow> (string \<times> yaml_connection) list \<times> string option
     \<Rightarrow> (string \<times> yaml_connection) list \<times> string option" where
  "write_yaml_connections conns =
     fold (\<lambda>(connect, c) (conn_dict, _).
             (AList.update connect
                (Yaml_connection (protocol c) (connection_ip c)
                   (case proxy c of None \<Rightarrow> ProxyNone | Some p \<Rightarrow> p))
                conn_dict,
              Some connect))
       conns"

text \<open>The entry of \<open>yaml_dict['topology']\<close> for a device: one entry per interface.\<close>

definition interface_entry :: "link list \<Rightarrow> interface \<Rightarrow> yaml_interface" where
  "interface_entry ls i =
     [(''type'', interface_type i)] @
     (case interface_link i of None \<Rightarrow> [] | Some l \<Rightarrow> [(''link'', link_name (ls ! l))]) @
     (case interface_ipv4 i of None \<Rightarrow> [] | Some a \<Rightarrow> [(''ipv4'', a)])"

definition interface_dict :: "link list \<Rightarrow> device \<Rightarrow> (string \<times> yaml_interface) list" where
  "interface_dict ls d =
     fold (\<lambda>(name, i). AList.update name (interface_entry ls i)) (interfaces d) []"

text \<open>
  The first loop of \<open>create_yaml_dict\<close>, which builds \<open>yaml_dict\<close>: its
  \<open>devices\<close>, its \<open>topology\<close> and the variable \<open>connect\<close>.
  \<open>credential_dict\<close> is what the device manager returns for the file.
\<close>

fun build_yaml_dict ::
  "credentials \<Rightarrow> link list \<Rightarrow> string list \<Rightarrow> (string \<times> device) list
     \<Rightarrow> (string \<times> generated_device) list \<times> (string \<times> (string \<times> yaml_interface) list) list \<times> string option
     \<Rightarrow> error + (string \<times> generated_device) list \<times> (string \<times> (string \<times> yaml_interface) list) list" where
  "build_yaml_dict credential_dict ls known [] (devs, topo, connect) = Inr (devs, topo)"
| "build_yaml_dict credential_dict ls known ((name, d) # rest) (devs, topo, connect) =
     (let topo' = AList.update name (interface_dict ls d) topo in
      if name \<notin> set known then
        (case write_yaml_connections (connections d) ([], connect) of
           (conn_dict, None) \<Rightarrow> Inl UnboundLocalError
         | (conn_dict, Some connect') \<Rightarrow>
             build_yaml_dict credential_dict ls known rest
               (AList.update name
                  \<lparr>yaml_type = device_type d, yaml_os = device_os d,
                   yaml_credentials = credential_dict,
                   yaml_connections = AList.update ''defaults'' (Yaml_defaults connect') conn_dict\<rparr>
                  devs,
                topo', Some connect'))
      else build_yaml_dict credential_dict ls known rest (devs, topo', connect))"

text \<open>The loop that merges \<open>yaml_dict['devices']\<close> into the configuration.\<close>

fun merge_devices ::
  "(string \<times> generated_device) list \<Rightarrow> (string \<times> 'd yaml_device) list \<Rightarrow> (string \<times> 'd yaml_device) list" where
  "merge_devices [] ds = ds"
| "merge_devices ((name, g) # rest) ds =
     merge_devices rest (if map_of ds name = None then ds @ [(name, Generated g)] else ds)"

text \<open>
  The loop that merges \<open>yaml_dict['topology']\<close> into an existing topology. The entry
  of a device that has none is added; otherwise the interfaces of the existing entry are
  updated with the new ones. \<open>blank\<close> is the content that a new entry has besides its
  interfaces: none.
\<close>

fun merge_topology ::
  "'o \<Rightarrow> (string \<times> (string \<times> yaml_interface) list) list \<Rightarrow> (string \<times> 'o topology_entry) list
     \<Rightarrow> error + (string \<times> 'o topology_entry) list" where
  "merge_topology blank [] topo = Inr topo"
| "merge_topology blank ((name, ifs) # rest) topo =
     (case map_of topo name of
        None \<Rightarrow>
          merge_topology blank rest
            (topo @ [(name, \<lparr>entry_interfaces = Some ifs, entry_other = blank\<rparr>)])
      | Some e \<Rightarrow>
          (case entry_interfaces e of
             None \<Rightarrow> Inl KeyError
           | Some old \<Rightarrow>
               merge_topology blank rest
                 (AList.update name (e\<lparr>entry_interfaces := Some (dict_update old ifs)\<rparr>) topo)))"

text \<open>
  \<open>create_yaml_dict\<close>: \<open>yaml_dict\<close> is built from the testbed and merged into
  \<open>testbed_yaml\<close>. The function has no \<open>return\<close> statement and changes
  \<open>testbed_yaml\<close> in place: the result here is \<open>testbed_yaml\<close> as the call
  leaves it.
\<close>

definition create_yaml_dict ::
  "credentials \<Rightarrow> 'o \<Rightarrow> testbed \<Rightarrow> ('d, 'o) testbed_yaml \<Rightarrow> error + ('d, 'o) testbed_yaml" where
  "create_yaml_dict credential_dict blank tb testbed_yaml =
     (case build_yaml_dict credential_dict (links tb) (map fst (yaml_devices testbed_yaml))
             (devices tb) ([], [], None) of
        Inl e \<Rightarrow> Inl e
      | Inr (devs, topo) \<Rightarrow>
          let merged = merge_devices devs (yaml_devices testbed_yaml) in
          (case yaml_topology testbed_yaml of
             None \<Rightarrow>
               Inr (testbed_yaml\<lparr>yaml_devices := merged,
                      yaml_topology := Some (map (\<lambda>(name, ifs).
                        (name, \<lparr>entry_interfaces = Some ifs, entry_other = blank\<rparr>)) topo)\<rparr>)
           | Some old \<Rightarrow>
               (case merge_topology blank topo old of
                  Inl e \<Rightarrow> Inl e
                | Inr topology \<Rightarrow>
                    Inr (testbed_yaml\<lparr>yaml_devices := merged, yaml_topology := Some topology\<rparr>))))"

text \<open>
  \<open>testbed_yaml['topology'][name]['interfaces'][k]\<close>, the entry of an interface in
  a configuration; \<open>None\<close> when one of the keys is missing.
\<close>

definition yaml_interface_entry :: "('d, 'o) testbed_yaml \<Rightarrow> string \<Rightarrow> string \<Rightarrow> yaml_interface option" where
  "yaml_interface_entry y name k =
     (case yaml_topology y of
        None \<Rightarrow> None
      | Some topo \<Rightarrow>
          (case map_of topo name of
             None \<Rightarrow> None
           | Some e \<Rightarrow>
               (case entry_interfaces e of
                  None \<Rightarrow> None
                | Some ifs \<Rightarrow> map_of ifs k)))"

section \<open>Example inputs\<close>

text \<open>A parser for the addresses of the examples.\<close>

definition parse_example :: "string \<Rightarrow> 32 word option" where
  "parse_example s =
     (if s = ''10.0.0.5'' then Some 0x0A000005
      else if s = ''192.168.1.1'' then Some 0xC0A80101
      else None)"

text \<open>A device of the examples, with the given interfaces and no links.\<close>

definition example_device :: "string list \<Rightarrow> device" where
  "example_device names =
     \<lparr>device_type = ''router'', device_os = Some ''ios'', device_credentials = [],
      connections = [],
      interfaces = map (\<lambda>n. (n, \<lparr>interface_type = ''gi'', interface_link = None,
                                    interface_ipv4 = None\<rparr>)) names\<rparr>"

text \<open>A device of the examples with credentials and a connection, as a finder has.\<close>

definition example_finder :: device where
  "example_finder =
     \<lparr>device_type = ''router'', device_os = Some ''ios'',
      device_credentials = [(''default'', [(''username'', ''admin''), (''password'', ''secret'')])],
      connections = [(''cli'', \<lparr>protocol = Some ''ssh'', connection_ip = Some ''10.0.0.1'',
                               proxy = None\<rparr>)],
      interfaces = []\<rparr>"

text \<open>
  A graph of the examples after discovery: A's Gi1 and B's Gi2 are the members of Link_0.
\<close>

definition example_linked :: "string \<Rightarrow> device" where
  "example_linked name =
     example_finder\<lparr>interfaces := [(name, \<lparr>interface_type = ''gi'', interface_link = Some 0,
                                             interface_ipv4 = None\<rparr>)]\<rparr>"

definition example_graph :: testbed where
  "example_graph =
     \<lparr>devices = [(''A'', example_linked ''Gi1''), (''B'', example_linked ''Gi2'')],
      links = [\<lparr>link_name = ''Link_0'', link_interfaces = [(''A'', ''Gi1''), (''B'', ''Gi2'')]\<rparr>]\<rparr>"

section \<open>Properties of the string functions\<close>

lemma starts_with_iff: "starts_with p s \<longleftrightarrow> (\<exists>post. s = p @ post)"
  by (induction p s rule: starts_with.induct) auto

lemma str_in_iff: "str_in sub s \<longleftrightarrow> (\<exists>pre post. s = pre @ sub @ post)"
proof (induction s)
  case Nil
  then show ?case by auto
next
  case (Cons c cs)
  show ?case
  proof
    assume "str_in sub (c # cs)"
    then consider "starts_with sub (c # cs)" | "str_in sub cs" by auto
    then show "\<exists>pre post. c # cs = pre @ sub @ post"
    proof cases
      case 1
      then obtain post where "c # cs = sub @ post" by (auto simp: starts_with_iff)
      then have "c # cs = [] @ sub @ post" by simp
      then show ?thesis by blast
    next
      case 2
      with Cons.IH obtain pre post where "cs = pre @ sub @ post" by blast
      then have "c # cs = (c # pre) @ sub @ post" by simp
      then show ?thesis by blast
    qed
  next
    assume "\<exists>pre post. c # cs = pre @ sub @ post"
    then obtain pre post where eq: "c # cs = pre @ sub @ post" by blast
    show "str_in sub (c # cs)"
    proof (cases pre)
      case Nil
      with eq have "starts_with sub (c # cs)" by (auto simp: starts_with_iff)
      then show ?thesis by simp
    next
      case (Cons a pre')
      with eq have "cs = pre' @ sub @ post" by simp
      with Cons.IH have "str_in sub cs" by blast
      then show ?thesis by simp
    qed
  qed
qed

lemma domain_filter_match_Some:
  "domain_filter_match s = Some h \<Longrightarrow> h \<noteq> [] \<and> (\<forall>c \<in> set h. host_char c)"
proof (induction s)
  case Nil
  then show ?case by simp
next
  case (Cons c cs)
  show ?case
  proof (cases "host_char c")
    case True
    with Cons.prems have "h = c # takeWhile host_char cs" by simp
    with True show ?thesis by (auto dest: set_takeWhileD)
  next
    case False
    with Cons show ?thesis by (auto split: if_splits)
  qed
qed

lemma domain_filter_match_host:
  assumes "h \<noteq> []" and "\<forall>c \<in> set h. host_char c"
  shows "domain_filter_match h = Some h"
proof (cases h)
  case Nil
  with assms show ?thesis by simp
next
  case (Cons c cs)
  with assms have "host_char c" and "takeWhile host_char cs = cs" by auto
  with Cons show ?thesis by simp
qed

text \<open>
  C6. The classifier on a system description and a platform hint: when either contains
  "IOS", the result is iosxe if either contains "XE" (also when "XR" is present), else
  iosxr if either contains "XR", else ios; when neither contains "IOS", the result is nxos
  exactly when either contains "NX-OS", and there is no classification otherwise.
  Containment is being a contiguous substring.
\<close>

theorem get_os_precedence:
  fixes sd ph :: string
  defines "has \<equiv> \<lambda>w. (\<exists>pre post. sd = pre @ w @ post) \<or> (\<exists>pre post. ph = pre @ w @ post)"
  shows "(has ''IOS'' \<longrightarrow>
            (has ''XE'' \<longrightarrow> get_os sd ph = Some ''iosxe'') \<and>
            (\<not> has ''XE'' \<and> has ''XR'' \<longrightarrow> get_os sd ph = Some ''iosxr'') \<and>
            (\<not> has ''XE'' \<and> \<not> has ''XR'' \<longrightarrow> get_os sd ph = Some ''ios'')) \<and>
         (\<not> has ''IOS'' \<longrightarrow>
            (get_os sd ph = Some ''nxos'' \<longleftrightarrow> has ''NX-OS'') \<and>
            (\<not> has ''NX-OS'' \<longrightarrow> get_os sd ph = None))"
  unfolding has_def get_os_def str_in_iff [symmetric] by simp

theorem get_os_precedence_witness:
  "get_os ''Cisco IOS XE Software, XR compatible'' ''cisco C9300'' = Some ''iosxe'' \<and>
   get_os ''Cisco IOS XR Software'' '''' = Some ''iosxr'' \<and>
   get_os ''Cisco IOS Software'' ''cisco WS-C3750'' = Some ''ios'' \<and>
   get_os ''Cisco Nexus Operating System (NX-OS) Software'' ''N9K'' = Some ''nxos'' \<and>
   get_os ''Arista EOS'' ''DCS-7050'' = None"
  using get_os_precedence [of "''Cisco IOS XE Software, XR compatible''" "''cisco C9300''"]
    get_os_precedence [of "''Cisco IOS XR Software''" "''''"]
    get_os_precedence [of "''Cisco IOS Software''" "''cisco WS-C3750''"]
    get_os_precedence [of "''Cisco Nexus Operating System (NX-OS) Software''" "''N9K''"]
    get_os_precedence [of "''Arista EOS''" "''DCS-7050''"]
  unfolding str_in_iff [symmetric] by simp

text \<open>
  C7. The name normalizer is idempotent: normalizing a normalized name gives the same
  name, where normalizing returns the host-name group of the pattern and the input itself
  when the pattern does not match. (The proof does not depend on which characters the
  class \<open>[-\w]\<close> has.)
\<close>

theorem filter_name_idempotent: "filter_name (filter_name x) = filter_name x"
proof (cases "domain_filter_match x")
  case None
  then show ?thesis by (simp add: filter_name_def)
next
  case (Some h)
  then have "domain_filter_match h = Some h"
    by (intro domain_filter_match_host) (auto dest: domain_filter_match_Some)
  with Some show ?thesis by (simp add: filter_name_def)
qed

section \<open>Exclusion checks of the neighbor processors\<close>

lemma scan_networks_True:
  "scan_networks parse (map (Pair a) nets) = Inr True \<longleftrightarrow>
     (\<exists>w. parse a = Some w \<and> (\<exists>net \<in> set nets. in_network w net))"
  by (induction nets) (auto split: option.splits)

text \<open>
  C4, as the code has it. An LLDP entry that passes the links-only check and the
  interface exclusion is skipped for its address exactly when the address checked lies in
  an excluded network, and the address checked is the generic management-address field
  when that is present, the 4-family field only when the generic one is absent.
\<close>

theorem lldp_exclusion_address:
  assumes "\<not> (only_links cfg \<and> dest_host \<notin> set names)"
    and "\<not> str_in interface (exclude_interfaces cfg)"
    and "\<not> str_in dest_port (exclude_interfaces cfg)"
  shows "lldp_verdict cfg parse nets names interface dest_port ((dest_host, nb) # others) = Inr Skip_network
     \<longleftrightarrow> (\<exists>a w. (management_address nb = Some a \<or>
                  management_address nb = None \<and> management_address_v4 nb = Some a) \<and>
               parse a = Some w \<and> (\<exists>net \<in> set nets. in_network w net))"
proof (cases "lldp_ip_address nb")
  case None
  then have "management_address nb = None" "management_address_v4 nb = None"
    by (auto simp: lldp_ip_address_def split: option.splits)
  with None assms show ?thesis by (simp add: lldp_verdict_def)
next
  case (Some a)
  then have sel: "\<And>b. (management_address nb = Some b \<or>
      management_address nb = None \<and> management_address_v4 nb = Some b) \<longleftrightarrow> b = a"
    by (auto simp: lldp_ip_address_def split: option.splits)
  show ?thesis
  proof (cases "nets = []")
    case True
    with Some assms show ?thesis by (simp add: lldp_verdict_def)
  next
    case False
    have "lldp_verdict cfg parse nets names interface dest_port ((dest_host, nb) # others) = Inr Skip_network
       \<longleftrightarrow> scan_networks parse (map (Pair a) nets) = Inr True"
      using Some assms False by (auto simp: lldp_verdict_def Let_def split: sum.splits)
    then show ?thesis by (simp add: scan_networks_True sel)
  qed
qed

text \<open>
  An entry without the generic field, whose 4-family address 10.0.0.5 lies in the
  excluded network 10.0.0.0/24, is skipped.
\<close>

theorem lldp_exclusion_address_witness:
  "lldp_verdict \<lparr>only_links = False, exclude_interfaces = '''', add_unconnected_interfaces = False\<rparr>
     parse_example [IPv4Network 0x0A000000 0xFFFFFF00] [''A''] ''Gi0/1'' ''Gi0/2''
     [(''edge1'', \<lparr>management_address = None, management_address_v4 = Some ''10.0.0.5'',
         system_description = ''Cisco IOS Software''\<rparr>)]
     = Inr Skip_network"
  using lldp_exclusion_address [of
      "\<lparr>only_links = False, exclude_interfaces = '''', add_unconnected_interfaces = False\<rparr>"
      "''edge1''" "[''A'']" "''Gi0/1''" "''Gi0/2''" parse_example
      "[IPv4Network 0x0A000000 0xFFFFFF00]"
      "\<lparr>management_address = None, management_address_v4 = Some ''10.0.0.5'',
         system_description = ''Cisco IOS Software''\<rparr>" "[]"]
  by (simp add: parse_example_def)

text \<open>
  C4, as the spec has it, fails: with the generic field 10.0.0.5 inside the excluded
  network 10.0.0.0/24 and the 4-family field 192.168.1.1 outside it, the entry is skipped,
  so the check did not use the 4-family field although it is present.
\<close>

theorem lldp_exclusion_address_v4_counterexample:
  "management_address_v4 \<lparr>management_address = Some ''10.0.0.5'',
       management_address_v4 = Some ''192.168.1.1'', system_description = ''Cisco IOS Software''\<rparr>
     = Some ''192.168.1.1'' \<and>
   parse_example ''192.168.1.1'' = Some 0xC0A80101 \<and>
   \<not> in_network 0xC0A80101 (IPv4Network 0x0A000000 0xFFFFFF00) \<and>
   lldp_verdict \<lparr>only_links = False, exclude_interfaces = '''', add_unconnected_interfaces = False\<rparr>
     parse_example [IPv4Network 0x0A000000 0xFFFFFF00] [''A''] ''Gi0/1'' ''Gi0/2''
     [(''edge1'', \<lparr>management_address = Some ''10.0.0.5'',
         management_address_v4 = Some ''192.168.1.1'', system_description = ''Cisco IOS Software''\<rparr>)]
     = Inr Skip_network"
  by (simp add: lldp_verdict_def lldp_ip_address_def parse_example_def)

text \<open>
  What the two interface tests of the CDP processor decide: an entry that has a name and
  passes the links-only test is skipped for an interface exactly when its local or its
  remote interface name occurs as a substring in the \<open>exclude_interfaces\<close>
  argument.
\<close>

lemma cdp_interface_skip_iff:
  assumes "cdp_dest_host connection = Some raw"
    and "\<not> (only_links cfg \<and> filter_name raw \<notin> set names)"
  shows "cdp_verdict cfg parse nets names connection \<in> {Inr Skip_interface, Inr Skip_dest_interface}
     \<longleftrightarrow> (\<exists>pre post. exclude_interfaces cfg = pre @ local_interface connection @ post) \<or>
         (\<exists>pre post. exclude_interfaces cfg = pre @ port_id connection @ post)"
  using assms unfolding str_in_iff [symmetric]
  by (auto simp: cdp_verdict_def Let_def split: option.splits sum.splits)

text \<open>
  C5 at a failing input. With \<open>exclude_interfaces='Gi0/10'\<close> the CDP entry with the
  local interface Gi0/1 is skipped by the local-interface branch: the test
  \<open>interface in self._exclude_interfaces\<close> is a substring test on the argument
  string, and Gi0/1 is a substring of Gi0/10.
\<close>

theorem cdp_exclude_interfaces_substring:
  "cdp_verdict \<lparr>only_links = False, exclude_interfaces = ''Gi0/10'', add_unconnected_interfaces = False\<rparr>
     parse_example [] [''A'']
     \<lparr>system_name = Some ''edge1.example.com'', device_id = None, port_id = ''Gi0/2'',
      local_interface = ''Gi0/1'', management_addresses = Some [''10.0.0.5''],
      interface_addresses = Some [], software_version = ''Cisco IOS Software'',
      platform = ''cisco WS-C3750''\<rparr>
   = Inr Skip_interface"
  by (simp add: cdp_verdict_def cdp_dest_host_def)

section \<open>Link commit: membership and idempotence\<close>

lemma get_interface_connect:
  "get_interface (connect_interface l p tb) q =
     (if q = p then (case get_interface tb p of Inl e \<Rightarrow> Inl e
                     | Inr i \<Rightarrow> Inr (i\<lparr>interface_link := Some l\<rparr>))
      else get_interface tb q)"
  by (cases p; cases q)
    (auto simp: get_interface_def connect_interface_def map_of_map_entry split: option.splits)

lemma link_of_connect:
  "link_of (connect_interface l p tb) q =
     (if q = p \<and> (\<exists>i. get_interface tb p = Inr i) then Some l else link_of tb q)"
  by (auto simp: link_of_def get_interface_connect split: sum.splits)

lemma links_connect:
  "l < length (links tb) \<Longrightarrow>
   links (connect_interface l p tb) ! l' =
     (if l' = l then (links tb ! l)\<lparr>link_interfaces := link_interfaces (links tb ! l) @ [p]\<rparr>
      else links tb ! l')"
  by (simp add: connect_interface_def)

lemma length_links_connect [simp]:
  "length (links (connect_interface l p tb)) = length (links tb)"
  by (simp add: connect_interface_def)

lemma links_wf_link_of:
  assumes "links_wf tb" and "link_of tb p = Some l"
  shows "l < length (links tb)"
proof -
  from assms(2) obtain d i where "map_of (devices tb) (fst p) = Some d"
    and "map_of (interfaces d) (snd p) = Some i" and "interface_link i = Some l"
    by (auto simp: link_of_def get_interface_def split: option.splits sum.splits)
  then have "(fst p, d) \<in> set (devices tb)" and "(snd p, i) \<in> set (interfaces d)"
    by (auto dest: map_of_SomeD)
  with assms(1) \<open>interface_link i = Some l\<close> show ?thesis
    unfolding links_wf_def by fast
qed

lemma set_map_entry:
  "(k', v') \<in> set (AList.map_entry k f xs) \<Longrightarrow>
     (k', v') \<in> set xs \<or> (k' = k \<and> (\<exists>v. (k, v) \<in> set xs \<and> v' = f v))"
  by (induction xs) (auto split: if_splits)

lemma links_wf_connect:
  assumes "links_wf tb" and "l < length (links tb)"
  shows "links_wf (connect_interface l p tb)"
  unfolding links_wf_def
proof (intro ballI allI impI, clarify)
  fix name d n i l'
  assume d: "(name, d) \<in> set (devices (connect_interface l p tb))"
    and i: "(n, i) \<in> set (interfaces d)" and l': "interface_link i = Some l'"
  from d consider "(name, d) \<in> set (devices tb)"
    | d0 where "(name, d0) \<in> set (devices tb)"
        "d = d0\<lparr>interfaces := AList.map_entry (snd p) (\<lambda>i. i\<lparr>interface_link := Some l\<rparr>) (interfaces d0)\<rparr>"
    by (auto simp: connect_interface_def dest!: set_map_entry)
  then have "l' < length (links tb)"
  proof cases
    case 1
    with assms(1) i l' show ?thesis unfolding links_wf_def by fast
  next
    case 2
    with i consider "(n, i) \<in> set (interfaces d0)"
      | i0 where "(n, i0) \<in> set (interfaces d0)" "i = i0\<lparr>interface_link := Some l\<rparr>"
      by (auto dest!: set_map_entry)
    then show ?thesis
    proof cases
      case 1
      with assms(1) 2(1) l' show ?thesis unfolding links_wf_def by fast
    next
      case 2
      with l' assms(2) show ?thesis by simp
    qed
  qed
  then show "l' < length (links (connect_interface l p tb))"
    by (simp add: connect_interface_def)
qed

lemma links_wf_add_link:
  assumes "links_wf tb"
  shows "links_wf (tb\<lparr>links := links tb @ [lk]\<rparr>)"
  using assms unfolding links_wf_def by (fastforce simp: less_Suc_eq)

lemma connect_preserves:
  assumes "links_wf tb" "links_consistent tb" "l < length (links tb)"
    and "get_interface tb r = Inr i"
    and "link_of tb r = None \<or> link_of tb r = Some l"
  shows "links_wf (connect_interface l r tb) \<and> links_consistent (connect_interface l r tb)"
proof
  show "links_wf (connect_interface l r tb)"
    using assms(1,3) by (rule links_wf_connect)
  show "links_consistent (connect_interface l r tb)"
    unfolding links_consistent_def
  proof (intro allI impI ballI)
    fix l' p
    assume l': "l' < length (links (connect_interface l r tb))"
      and p: "p \<in> set (link_interfaces (links (connect_interface l r tb) ! l'))"
    show "link_of (connect_interface l r tb) p = Some l'"
    proof (cases "l' = l")
      case True
      with p assms(3) have "p = r \<or> p \<in> set (link_interfaces (links tb ! l))"
        by (auto simp: links_connect)
      with assms True show ?thesis
        by (auto simp: link_of_connect links_consistent_def)
    next
      case False
      with p l' assms(3) have "p \<in> set (link_interfaces (links tb ! l'))" "l' < length (links tb)"
        by (auto simp: links_connect)
      with assms(2) have old: "link_of tb p = Some l'" by (auto simp: links_consistent_def)
      with assms(5) False have "p \<noteq> r" by auto
      with old show ?thesis by (simp add: link_of_connect)
    qed
  qed
qed


lemma get_interface_connect_exists:
  "(\<exists>i. get_interface (connect_interface l p tb) q = Inr i) \<longleftrightarrow> (\<exists>i. get_interface tb q = Inr i)"
  by (auto simp: get_interface_connect split: sum.splits)

lemma fold_connect_preserves:
  assumes "links_wf tb" "links_consistent tb" "l < length (links tb)"
    and "\<forall>r \<in> set rs. (\<exists>i. get_interface tb r = Inr i) \<and> (link_of tb r = None \<or> link_of tb r = Some l)"
  shows "links_wf (fold (connect_interface l) rs tb) \<and> links_consistent (fold (connect_interface l) rs tb)"
  using assms
proof (induction rs arbitrary: tb)
  case Nil
  then show ?case by simp
next
  case (Cons r rs)
  from Cons.prems obtain i where i: "get_interface tb r = Inr i"
    and lr: "link_of tb r = None \<or> link_of tb r = Some l" by auto
  have step: "links_wf (connect_interface l r tb) \<and> links_consistent (connect_interface l r tb)"
    using Cons.prems(1-3) i lr by (rule connect_preserves)
  have rest: "\<forall>q \<in> set rs. (\<exists>i. get_interface (connect_interface l r tb) q = Inr i) \<and>
      (link_of (connect_interface l r tb) q = None \<or> link_of (connect_interface l r tb) q = Some l)"
    using Cons.prems(4) by (auto simp: get_interface_connect_exists link_of_connect)
  show ?case
    using Cons.IH [of "connect_interface l r tb"] step rest Cons.prems(3) by simp
qed

lemma extend_link_preserves:
  assumes "links_wf tb" "links_consistent tb" "l < length (links tb)"
    and "\<forall>r \<in> set entries. link_of tb r = None \<or> link_of tb r = Some l"
    and "extend_link l entries tb = Inr tb'"
  shows "links_wf tb' \<and> links_consistent tb'"
  using assms
proof (induction entries arbitrary: tb)
  case Nil
  then show ?case by simp
next
  case (Cons r entries)
  obtain dev dest_int where r: "r = (dev, dest_int)" by (cases r)
  from Cons.prems(5) r obtain i where i: "get_interface tb r = Inr i"
    by (auto split: sum.splits)
  show ?case
  proof (cases "r \<in> set (link_interfaces (links tb ! l))")
    case True
    with Cons.prems(5) r i have "extend_link l entries tb = Inr tb'" by simp
    with Cons.IH [of tb] Cons.prems(1-4) show ?thesis by simp
  next
    case False
    let ?tb = "connect_interface l r tb"
    from False Cons.prems(5) r i have run: "extend_link l entries ?tb = Inr tb'" by simp
    have step: "links_wf ?tb \<and> links_consistent ?tb"
      using Cons.prems(1-3) i Cons.prems(4) by (intro connect_preserves) auto
    have rest: "\<forall>q \<in> set entries. link_of ?tb q = None \<or> link_of ?tb q = Some l"
      using Cons.prems(4) by (auto simp: link_of_connect)
    show ?thesis
      using Cons.IH [of ?tb] step rest run Cons.prems(3) by simp
  qed
qed

lemma collect_interfaces_result:
  assumes "collect_interfaces tb entries int_list = Inr result"
  shows "set result = set int_list \<union> set entries \<and> (\<forall>r \<in> set entries. \<exists>i. get_interface tb r = Inr i)"
  using assms
proof (induction entries arbitrary: int_list)
  case Nil
  then show ?case by simp
next
  case (Cons r entries)
  obtain dev dest_int where r: "r = (dev, dest_int)" by (cases r)
  from Cons.prems r obtain i where i: "get_interface tb r = Inr i"
    by (auto split: sum.splits)
  let ?il = "if r \<in> set int_list then int_list else int_list @ [r]"
  from Cons.prems r i have "collect_interfaces tb entries ?il = Inr result"
    by (auto split: if_splits)
  from Cons.IH [OF this] i show ?case by (auto split: if_splits)
qed

lemma links_consistent_at_most_one:
  assumes "links_consistent tb"
  shows "at_most_one_link tb"
  unfolding at_most_one_link_def
proof (intro allI impI)
  fix l l'
  assume l: "l < length (links tb)" and l': "l' < length (links tb)" and ne: "l \<noteq> l'"
  show "set (link_interfaces (links tb ! l)) \<inter> set (link_interfaces (links tb ! l')) = {}"
  proof (rule ccontr)
    assume "\<not> ?thesis"
    then obtain p where "p \<in> set (link_interfaces (links tb ! l))"
      and "p \<in> set (link_interfaces (links tb ! l'))" by blast
    with assms l l' have "link_of tb p = Some l" and "link_of tb p = Some l'"
      unfolding links_consistent_def by blast+
    then have "l = l'" by simp
    with ne show False by contradiction
  qed
qed

lemma get_interface_links_update [simp]:
  "get_interface (tb\<lparr>links := ls\<rparr>) = get_interface tb"
  by (rule ext) (simp add: get_interface_def)

lemma link_of_links_update [simp]:
  "link_of (tb\<lparr>links := ls\<rparr>) = link_of tb"
  by (rule ext) (simp add: link_of_def)

lemma add_link_preserves:
  assumes "links_wf tb" "links_consistent tb"
  shows "links_wf (tb\<lparr>links := links tb @ [\<lparr>link_name = name, link_interfaces = []\<rparr>]\<rparr>) \<and>
         links_consistent (tb\<lparr>links := links tb @ [\<lparr>link_name = name, link_interfaces = []\<rparr>]\<rparr>)"
proof -
  let ?tb = "tb\<lparr>links := links tb @ [\<lparr>link_name = name, link_interfaces = []\<rparr>]\<rparr>"
  have "links_wf ?tb" using assms(1) by (rule links_wf_add_link)
  moreover have "links_consistent ?tb"
    using assms(2) by (auto simp: links_consistent_def less_Suc_eq nth_append)
  ultimately show ?thesis by simp
qed

lemma extend_link_fixed:
  assumes "\<forall>r \<in> set entries. (\<exists>i. get_interface tb r = Inr i) \<and> r \<in> set (link_interfaces (links tb ! l))"
  shows "extend_link l entries tb = Inr tb"
  using assms by (induction entries) auto

lemma extend_link_result:
  assumes "l < length (links tb)" and "extend_link l entries tb = Inr tb1"
  shows "length (links tb1) = length (links tb) \<and>
         set (link_interfaces (links tb ! l)) \<subseteq> set (link_interfaces (links tb1 ! l)) \<and>
         set entries \<subseteq> set (link_interfaces (links tb1 ! l)) \<and>
         (\<forall>r \<in> set entries. \<exists>i. get_interface tb r = Inr i) \<and>
         (\<forall>q. (\<exists>i. get_interface tb q = Inr i) \<longrightarrow> (\<exists>i. get_interface tb1 q = Inr i)) \<and>
         (\<forall>q. link_of tb q = Some l \<longrightarrow> link_of tb1 q = Some l)"
  using assms
proof (induction entries arbitrary: tb)
  case Nil
  then show ?case by simp
next
  case (Cons r entries)
  obtain dev dest_int where r: "r = (dev, dest_int)" by (cases r)
  from Cons.prems(2) r obtain i where i: "get_interface tb r = Inr i"
    by (auto split: sum.splits)
  show ?case
  proof (cases "r \<in> set (link_interfaces (links tb ! l))")
    case True
    with Cons.prems(2) r i have "extend_link l entries tb = Inr tb1" by simp
    from Cons.IH [OF Cons.prems(1) this] True i show ?thesis by auto
  next
    case False
    let ?tb = "connect_interface l r tb"
    from False Cons.prems(2) r i have run: "extend_link l entries ?tb = Inr tb1" by simp
    have len: "l < length (links ?tb)" using Cons.prems(1) by simp
    have mem: "set (link_interfaces (links ?tb ! l)) = insert r (set (link_interfaces (links tb ! l)))"
      using Cons.prems(1) by (simp add: links_connect)
    have ex: "\<forall>q. (\<exists>i. get_interface ?tb q = Inr i) \<longleftrightarrow> (\<exists>i. get_interface tb q = Inr i)"
      by (simp add: get_interface_connect_exists)
    have lo: "\<forall>q. link_of tb q = Some l \<longrightarrow> link_of ?tb q = Some l"
      by (simp add: link_of_connect)
    from Cons.IH [OF len run] mem ex lo i show ?thesis by auto
  qed
qed

lemma fold_connect_result:
  assumes "l < length (links tb)"
  shows "length (links (fold (connect_interface l) rs tb)) = length (links tb) \<and>
         link_interfaces (links (fold (connect_interface l) rs tb) ! l) = link_interfaces (links tb ! l) @ rs \<and>
         (\<forall>q. (\<exists>i. get_interface tb q = Inr i) \<longrightarrow>
              (\<exists>i. get_interface (fold (connect_interface l) rs tb) q = Inr i)) \<and>
         (\<forall>q. (\<exists>i. get_interface tb q = Inr i) \<and> (q \<in> set rs \<or> link_of tb q = Some l) \<longrightarrow>
              link_of (fold (connect_interface l) rs tb) q = Some l)"
  using assms
proof (induction rs arbitrary: tb)
  case Nil
  then show ?case by simp
next
  case (Cons r rs)
  let ?tb = "connect_interface l r tb"
  have len: "l < length (links ?tb)" using Cons.prems by simp
  have mem: "link_interfaces (links ?tb ! l) = link_interfaces (links tb ! l) @ [r]"
    using Cons.prems by (simp add: links_connect)
  have ex: "\<And>q. (\<exists>i. get_interface ?tb q = Inr i) \<longleftrightarrow> (\<exists>i. get_interface tb q = Inr i)"
    by (rule get_interface_connect_exists)
  have lo: "\<And>q. (\<exists>i. get_interface tb q = Inr i) \<and> (q = r \<or> link_of tb q = Some l) \<Longrightarrow>
      link_of ?tb q = Some l"
    by (auto simp: link_of_connect)
  from Cons.IH [OF len] have IH:
    "length (links (fold (connect_interface l) rs ?tb)) = length (links ?tb)"
    "link_interfaces (links (fold (connect_interface l) rs ?tb) ! l) = link_interfaces (links ?tb ! l) @ rs"
    "\<And>q. (\<exists>i. get_interface ?tb q = Inr i) \<Longrightarrow> (\<exists>i. get_interface (fold (connect_interface l) rs ?tb) q = Inr i)"
    "\<And>q. (\<exists>i. get_interface ?tb q = Inr i) \<and> (q \<in> set rs \<or> link_of ?tb q = Some l) \<Longrightarrow>
        link_of (fold (connect_interface l) rs ?tb) q = Some l"
    by blast+
  show ?case
  proof (intro conjI allI impI)
    show "length (links (fold (connect_interface l) (r # rs) tb)) = length (links tb)"
      using IH(1) by simp
    show "link_interfaces (links (fold (connect_interface l) (r # rs) tb) ! l) =
        link_interfaces (links tb ! l) @ r # rs"
      using IH(2) mem by simp
  next
    fix q assume "\<exists>i. get_interface tb q = Inr i"
    then show "\<exists>i. get_interface (fold (connect_interface l) (r # rs) tb) q = Inr i"
      using IH(3) [of q] ex [of q] by simp
  next
    fix q assume q: "(\<exists>i. get_interface tb q = Inr i) \<and> (q \<in> set (r # rs) \<or> link_of tb q = Some l)"
    then have "(\<exists>i. get_interface ?tb q = Inr i) \<and> (q \<in> set rs \<or> link_of ?tb q = Some l)"
      using ex [of q] lo [of q] by auto
    then show "link_of (fold (connect_interface l) (r # rs) tb) q = Some l"
      using IH(4) [of q] by simp
  qed
qed

text \<open>
  One local interface. Committing its entries keeps the graph consistent, provided each
  remote interface of the entries is in no link or in the link of the local interface; and
  committing them twice is the same as committing them once.
\<close>

lemma write_interface_connections_preserves:
  assumes "links_wf tb" and "links_consistent tb"
    and "\<forall>r \<in> set entries. link_of tb r = None \<or> link_of tb r = link_of tb (device, interface_name)"
    and "write_interface_connections device interface_name entries tb = Inr tb'"
  shows "links_wf tb' \<and> links_consistent tb' \<and> at_most_one_link tb'"
proof -
  from assms(4) obtain i where i: "get_interface tb (device, interface_name) = Inr i"
    by (auto simp: write_interface_connections_def split: sum.splits)
  then have lo: "link_of tb (device, interface_name) = interface_link i"
    by (simp add: link_of_def)
  have "links_wf tb' \<and> links_consistent tb'"
  proof (cases "interface_link i")
    case None
    with assms(4) i obtain int_list where
      col: "collect_interfaces tb entries [(device, interface_name)] = Inr int_list"
      and tb': "tb' = new_link (''Link_'' @ string_of_nat (length (links tb))) int_list tb"
      by (auto simp: write_interface_connections_def split: sum.splits)
    let ?tb = "tb\<lparr>links := links tb @ [\<lparr>link_name = ''Link_'' @ string_of_nat (length (links tb)),
      link_interfaces = []\<rparr>]\<rparr>"
    from collect_interfaces_result [OF col] i
    have ex: "\<forall>r \<in> set int_list. \<exists>i. get_interface tb r = Inr i"
      and mem: "set int_list = insert (device, interface_name) (set entries)" by auto
    have "\<forall>r \<in> set int_list. link_of tb r = None"
      using mem assms(3) lo None by auto
    with ex have "\<forall>r \<in> set int_list. (\<exists>i. get_interface ?tb r = Inr i) \<and>
        (link_of ?tb r = None \<or> link_of ?tb r = Some (length (links tb)))"
      by simp
    moreover have "links_wf ?tb \<and> links_consistent ?tb"
      using assms(1,2) by (rule add_link_preserves)
    moreover have "length (links tb) < length (links ?tb)" by simp
    ultimately have "links_wf (fold (connect_interface (length (links tb))) int_list ?tb) \<and>
        links_consistent (fold (connect_interface (length (links tb))) int_list ?tb)"
      by (intro fold_connect_preserves) blast+
    then show ?thesis by (simp add: tb' new_link_def)
  next
    case (Some l)
    with assms(4) i have run: "extend_link l entries tb = Inr tb'"
      by (simp add: write_interface_connections_def)
    from Some lo assms(1) have "l < length (links tb)" by (auto intro: links_wf_link_of)
    moreover from assms(3) lo Some
    have "\<forall>r \<in> set entries. link_of tb r = None \<or> link_of tb r = Some l" by simp
    ultimately show ?thesis using assms(1,2) run by (intro extend_link_preserves)
  qed
  then show ?thesis by (simp add: links_consistent_at_most_one)
qed

lemma write_interface_connections_twice:
  assumes "links_wf tb"
  shows "(case write_interface_connections device interface_name entries tb of
            Inl e \<Rightarrow> Inl e
          | Inr tb1 \<Rightarrow> write_interface_connections device interface_name entries tb1)
         = write_interface_connections device interface_name entries tb"
proof (cases "write_interface_connections device interface_name entries tb")
  case (Inl e)
  then show ?thesis by simp
next
  case (Inr tb1)
  then obtain i where i: "get_interface tb (device, interface_name) = Inr i"
    by (auto simp: write_interface_connections_def split: sum.splits)
  then have lo: "link_of tb (device, interface_name) = interface_link i"
    by (simp add: link_of_def)
  have "\<exists>l. link_of tb1 (device, interface_name) = Some l \<and>
          (\<exists>i. get_interface tb1 (device, interface_name) = Inr i) \<and>
          (\<forall>r \<in> set entries. (\<exists>i. get_interface tb1 r = Inr i) \<and> r \<in> set (link_interfaces (links tb1 ! l)))"
  proof (cases "interface_link i")
    case None
    with Inr i obtain int_list where
      col: "collect_interfaces tb entries [(device, interface_name)] = Inr int_list"
      and tb1: "tb1 = new_link (''Link_'' @ string_of_nat (length (links tb))) int_list tb"
      by (auto simp: write_interface_connections_def split: sum.splits)
    let ?n = "length (links tb)"
    let ?tb = "tb\<lparr>links := links tb @ [\<lparr>link_name = ''Link_'' @ string_of_nat ?n,
      link_interfaces = []\<rparr>]\<rparr>"
    have tb1': "tb1 = fold (connect_interface ?n) int_list ?tb"
      by (simp add: tb1 new_link_def)
    from collect_interfaces_result [OF col] i
    have ex: "\<forall>r \<in> set int_list. \<exists>i. get_interface ?tb r = Inr i"
      and mem: "set int_list = insert (device, interface_name) (set entries)" by auto
    have "?n < length (links ?tb)" by simp
    from fold_connect_result [OF this, of int_list] ex mem
    show ?thesis unfolding tb1' [symmetric] by (intro exI [of _ ?n]) auto
  next
    case (Some l)
    with Inr i have run: "extend_link l entries tb = Inr tb1"
      by (simp add: write_interface_connections_def)
    from Some lo assms have l: "l < length (links tb)" by (auto intro: links_wf_link_of)
    from extend_link_result [OF l run] i lo Some
    show ?thesis by (intro exI [of _ l]) auto
  qed
  then obtain l i1 where l: "link_of tb1 (device, interface_name) = Some l"
    and i1: "get_interface tb1 (device, interface_name) = Inr i1"
    and all: "\<forall>r \<in> set entries. (\<exists>i. get_interface tb1 r = Inr i) \<and> r \<in> set (link_interfaces (links tb1 ! l))"
    by blast
  from l i1 have "interface_link i1 = Some l" by (simp add: link_of_def)
  with i1 have "write_interface_connections device interface_name entries tb1 = extend_link l entries tb1"
    by (simp add: write_interface_connections_def)
  also have "\<dots> = Inr tb1" using all by (rule extend_link_fixed)
  finally show ?thesis using Inr by simp
qed

text \<open>
  A whole connection record. Its commit is the commit of its steps in order; a commit
  that re-links no interface keeps the back-reference of every interface that has one and
  every member of every link, so that afterwards each local interface of the record is in
  a link with all the remote interfaces of its entries.
\<close>

lemma write_steps_append:
  "write_steps (xs @ ys) tb = (case write_steps xs tb of Inl e \<Rightarrow> Inl e | Inr tb' \<Rightarrow> write_steps ys tb')"
  by (induction xs arbitrary: tb) (auto split: sum.splits)

lemma write_device_connections_steps:
  "write_device_connections device cd tb =
     write_steps (map (\<lambda>(interface_name, entries). (device, interface_name, entries)) cd) tb"
  by (induction cd arbitrary: tb) (auto split: sum.splits)

lemma write_connections_to_testbed_steps:
  "write_connections_to_testbed result tb = write_steps (connection_steps result) tb"
  by (induction result arbitrary: tb)
    (auto simp: connection_steps_def write_steps_append write_device_connections_steps
      split: sum.splits)

lemma keeps_links_refl: "keeps_links tb tb"
  by (simp add: keeps_links_def)

lemma keeps_links_trans: "keeps_links a b \<Longrightarrow> keeps_links b c \<Longrightarrow> keeps_links a c"
  unfolding keeps_links_def by (meson dual_order.trans order_less_le_trans)

lemma keeps_links_connect:
  assumes "link_of tb r = None \<or> link_of tb r = Some l"
  shows "keeps_links tb (connect_interface l r tb)"
  unfolding keeps_links_def
proof (intro conjI allI impI)
  show "length (links tb) \<le> length (links (connect_interface l r tb))" by simp
next
  fix l' assume "l' < length (links tb)"
  then show "set (link_interfaces (links tb ! l')) \<subseteq> set (link_interfaces (links (connect_interface l r tb) ! l'))"
    by (cases "l' = l") (auto simp: connect_interface_def)
next
  fix q assume "\<exists>i. get_interface tb q = Inr i"
  then show "\<exists>i. get_interface (connect_interface l r tb) q = Inr i"
    by (simp add: get_interface_connect_exists)
next
  fix q l' assume "link_of tb q = Some l'"
  with assms show "link_of (connect_interface l r tb) q = Some l'"
    by (auto simp: link_of_connect)
qed

lemma keeps_links_fold_connect:
  assumes "\<forall>r \<in> set rs. link_of tb r = None \<or> link_of tb r = Some l"
  shows "keeps_links tb (fold (connect_interface l) rs tb)"
  using assms
proof (induction rs arbitrary: tb)
  case Nil
  then show ?case by (simp add: keeps_links_refl)
next
  case (Cons r rs)
  have step: "keeps_links tb (connect_interface l r tb)"
    using Cons.prems by (intro keeps_links_connect) simp
  have "\<forall>q \<in> set rs. link_of (connect_interface l r tb) q = None \<or>
      link_of (connect_interface l r tb) q = Some l"
    using Cons.prems by (auto simp: link_of_connect)
  from Cons.IH [OF this] step show ?case by (auto intro: keeps_links_trans)
qed

lemma keeps_links_extend:
  assumes "\<forall>r \<in> set entries. link_of tb r = None \<or> link_of tb r = Some l"
    and "extend_link l entries tb = Inr tb'"
  shows "keeps_links tb tb'"
  using assms
proof (induction entries arbitrary: tb)
  case Nil
  then show ?case by (simp add: keeps_links_refl)
next
  case (Cons r entries)
  obtain dev dest_int where r: "r = (dev, dest_int)" by (cases r)
  show ?case
  proof (cases "r \<in> set (link_interfaces (links tb ! l))")
    case True
    with Cons.prems(2) r have "extend_link l entries tb = Inr tb'"
      by (auto split: sum.splits)
    with Cons.IH [of tb] Cons.prems(1) show ?thesis by simp
  next
    case False
    let ?tb = "connect_interface l r tb"
    from False Cons.prems(2) r have run: "extend_link l entries ?tb = Inr tb'"
      by (auto split: sum.splits)
    have step: "keeps_links tb ?tb" using Cons.prems(1) by (intro keeps_links_connect) simp
    have "\<forall>q \<in> set entries. link_of ?tb q = None \<or> link_of ?tb q = Some l"
      using Cons.prems(1) by (auto simp: link_of_connect)
    from Cons.IH [OF this run] step show ?thesis by (rule keeps_links_trans [rotated])
  qed
qed

lemma keeps_links_add_link: "keeps_links tb (tb\<lparr>links := links tb @ [lk]\<rparr>)"
  by (simp add: keeps_links_def nth_append)

lemma keeps_links_step:
  assumes "\<forall>r \<in> set entries. link_of tb r = None \<or> link_of tb r = link_of tb (device, interface_name)"
    and "write_interface_connections device interface_name entries tb = Inr tb'"
  shows "keeps_links tb tb'"
proof -
  from assms(2) obtain i where i: "get_interface tb (device, interface_name) = Inr i"
    by (auto simp: write_interface_connections_def split: sum.splits)
  then have lo: "link_of tb (device, interface_name) = interface_link i"
    by (simp add: link_of_def)
  show ?thesis
  proof (cases "interface_link i")
    case None
    with assms(2) i obtain int_list where
      col: "collect_interfaces tb entries [(device, interface_name)] = Inr int_list"
      and tb': "tb' = new_link (''Link_'' @ string_of_nat (length (links tb))) int_list tb"
      by (auto simp: write_interface_connections_def split: sum.splits)
    let ?tb = "tb\<lparr>links := links tb @ [\<lparr>link_name = ''Link_'' @ string_of_nat (length (links tb)),
      link_interfaces = []\<rparr>]\<rparr>"
    from collect_interfaces_result [OF col]
    have mem: "set int_list = insert (device, interface_name) (set entries)" by auto
    have "\<forall>r \<in> set int_list. link_of ?tb r = None \<or> link_of ?tb r = Some (length (links tb))"
      using mem assms(1) lo None by auto
    then have "keeps_links ?tb (fold (connect_interface (length (links tb))) int_list ?tb)"
      by (rule keeps_links_fold_connect)
    with keeps_links_add_link [of tb] show ?thesis
      unfolding tb' new_link_def by (rule keeps_links_trans)
  next
    case (Some l)
    with assms(2) i have run: "extend_link l entries tb = Inr tb'"
      by (simp add: write_interface_connections_def)
    from assms(1) lo Some
    have "\<forall>r \<in> set entries. link_of tb r = None \<or> link_of tb r = Some l" by simp
    then show ?thesis using run by (rule keeps_links_extend)
  qed
qed

lemma entries_linked_keeps:
  assumes "entries_linked tb step" and "keeps_links tb tb'"
  shows "entries_linked tb' step"
proof -
  obtain device interface_name entries where step: "step = (device, interface_name, entries)"
    by (cases step)
  from assms(1) step obtain l where l: "l < length (links tb)"
    and lo: "link_of tb (device, interface_name) = Some l"
    and all: "\<forall>r \<in> set entries. (\<exists>i. get_interface tb r = Inr i) \<and>
        r \<in> set (link_interfaces (links tb ! l))"
    by (auto simp: entries_linked_def)
  from assms(2) l lo all have "l < length (links tb')"
    and "link_of tb' (device, interface_name) = Some l"
    and "\<forall>r \<in> set entries. (\<exists>i. get_interface tb' r = Inr i) \<and>
        r \<in> set (link_interfaces (links tb' ! l))"
    unfolding keeps_links_def by (auto 0 3)
  then show ?thesis unfolding step entries_linked_def by auto
qed

lemma entries_linked_after_step:
  assumes "links_wf tb"
    and "write_interface_connections device interface_name entries tb = Inr tb1"
  shows "entries_linked tb1 (device, interface_name, entries)"
proof -
  from assms(2) obtain i where i: "get_interface tb (device, interface_name) = Inr i"
    by (auto simp: write_interface_connections_def split: sum.splits)
  then have lo: "link_of tb (device, interface_name) = interface_link i"
    by (simp add: link_of_def)
  show ?thesis
  proof (cases "interface_link i")
    case None
    with assms(2) i obtain int_list where
      col: "collect_interfaces tb entries [(device, interface_name)] = Inr int_list"
      and tb1: "tb1 = new_link (''Link_'' @ string_of_nat (length (links tb))) int_list tb"
      by (auto simp: write_interface_connections_def split: sum.splits)
    let ?n = "length (links tb)"
    let ?tb = "tb\<lparr>links := links tb @ [\<lparr>link_name = ''Link_'' @ string_of_nat ?n,
      link_interfaces = []\<rparr>]\<rparr>"
    have tb1': "tb1 = fold (connect_interface ?n) int_list ?tb"
      by (simp add: tb1 new_link_def)
    from collect_interfaces_result [OF col] i
    have ex: "\<forall>r \<in> set int_list. \<exists>i. get_interface ?tb r = Inr i"
      and mem: "set int_list = insert (device, interface_name) (set entries)" by auto
    have n: "?n < length (links ?tb)" by simp
    from fold_connect_result [OF n, of int_list] ex mem
    show ?thesis unfolding tb1' [symmetric] entries_linked_def
      by (auto intro!: exI [of _ ?n])
  next
    case (Some l)
    with assms(2) i have run: "extend_link l entries tb = Inr tb1"
      by (simp add: write_interface_connections_def)
    from Some lo assms(1) have l: "l < length (links tb)" by (auto intro: links_wf_link_of)
    from extend_link_result [OF l run] i lo Some l
    show ?thesis unfolding entries_linked_def by (auto intro!: exI [of _ l])
  qed
qed

lemma entries_linked_fixed:
  assumes "entries_linked tb (device, interface_name, entries)"
  shows "write_interface_connections device interface_name entries tb = Inr tb"
proof -
  from assms obtain l where lo: "link_of tb (device, interface_name) = Some l"
    and all: "\<forall>r \<in> set entries. (\<exists>i. get_interface tb r = Inr i) \<and>
        r \<in> set (link_interfaces (links tb ! l))"
    by (auto simp: entries_linked_def)
  from lo obtain i where "get_interface tb (device, interface_name) = Inr i"
    and "interface_link i = Some l"
    by (auto simp: link_of_def split: sum.splits)
  then have "write_interface_connections device interface_name entries tb = extend_link l entries tb"
    by (simp add: write_interface_connections_def)
  also have "\<dots> = Inr tb" using all by (rule extend_link_fixed)
  finally show ?thesis .
qed

lemma write_steps_fixed:
  "\<forall>s \<in> set steps. entries_linked tb s \<Longrightarrow> write_steps steps tb = Inr tb"
proof (induction steps)
  case Nil
  then show ?case by simp
next
  case (Cons s steps)
  obtain device interface_name entries where s: "s = (device, interface_name, entries)"
    by (cases s)
  with Cons.prems have "write_interface_connections device interface_name entries tb = Inr tb"
    by (intro entries_linked_fixed) simp
  with Cons s show ?case by simp
qed

lemma write_steps_no_relink:
  assumes "links_wf tb" and "links_consistent tb" and "no_relink steps tb"
    and "write_steps steps tb = Inr tb'"
  shows "links_wf tb' \<and> links_consistent tb' \<and> keeps_links tb tb' \<and>
         (\<forall>s \<in> set steps. entries_linked tb' s)"
  using assms
proof (induction steps arbitrary: tb)
  case Nil
  then show ?case by (simp add: keeps_links_refl)
next
  case (Cons s steps)
  obtain device interface_name entries where s: "s = (device, interface_name, entries)"
    by (cases s)
  from Cons.prems(4) s obtain tb1 where
    one: "write_interface_connections device interface_name entries tb = Inr tb1"
    and run: "write_steps steps tb1 = Inr tb'"
    by (auto split: sum.splits)
  from Cons.prems(3) s one have
    free: "\<forall>r \<in> set entries. link_of tb r = None \<or> link_of tb r = link_of tb (device, interface_name)"
    and rest: "no_relink steps tb1"
    by auto
  from write_interface_connections_preserves [OF Cons.prems(1,2) free one]
  have wf1: "links_wf tb1" and cons1: "links_consistent tb1" by simp_all
  have keep1: "keeps_links tb tb1" using free one by (rule keeps_links_step)
  have linked1: "entries_linked tb1 s"
    unfolding s using Cons.prems(1) one by (rule entries_linked_after_step)
  from Cons.IH [OF wf1 cons1 rest run]
  have wf': "links_wf tb'" and cons': "links_consistent tb'" and keep': "keeps_links tb1 tb'"
    and linked': "\<forall>s \<in> set steps. entries_linked tb' s"
    by simp_all
  from linked1 keep' have "entries_linked tb' s" by (rule entries_linked_keeps)
  moreover from keep1 keep' have "keeps_links tb tb'" by (rule keeps_links_trans)
  ultimately show ?case using wf' cons' linked' by simp
qed

text \<open>
  C2, as the code has it. In a consistent graph, committing a connection record keeps
  every interface in at most one link (and every member of a link referring back to it),
  provided the commit re-links no interface: each remote interface is, when its entry is
  committed, in no link or in the link of the local interface. The code checks the link
  of the local interface only.
\<close>

theorem link_commit_one_link:
  assumes "links_wf tb" and "links_consistent tb"
    and "no_relink (connection_steps result) tb"
    and "write_connections_to_testbed result tb = Inr tb'"
  shows "links_wf tb' \<and> links_consistent tb' \<and> at_most_one_link tb'"
proof -
  from assms(4) have "write_steps (connection_steps result) tb = Inr tb'"
    by (simp add: write_connections_to_testbed_steps)
  from write_steps_no_relink [OF assms(1,2,3) this]
  show ?thesis by (simp add: links_consistent_at_most_one)
qed

text \<open>A's Gi1 reports B's Gi1 and B's Gi1 reports A's Gi1, in a graph without links.\<close>

theorem link_commit_one_link_witness:
  "case write_connections_to_testbed
          [(''A'', [(''Gi1'', [(''B'', ''Gi1'')])]), (''B'', [(''Gi1'', [(''A'', ''Gi1'')])])]
          \<lparr>devices = [(''A'', example_device [''Gi1'']), (''B'', example_device [''Gi1''])], links = []\<rparr> of
     Inl e \<Rightarrow> False
   | Inr tb' \<Rightarrow>
       links tb' = [\<lparr>link_name = ''Link_0'', link_interfaces = [(''A'', ''Gi1''), (''B'', ''Gi1'')]\<rparr>] \<and>
       links_wf tb' \<and> links_consistent tb' \<and> at_most_one_link tb'"
proof -
  let ?tb = "\<lparr>devices = [(''A'', example_device [''Gi1'']), (''B'', example_device [''Gi1''])], links = []\<rparr>"
  let ?result = "[(''A'', [(''Gi1'', [(''B'', ''Gi1'')])]), (''B'', [(''Gi1'', [(''A'', ''Gi1'')])])]"
  have wf: "links_wf ?tb" by (simp add: links_wf_def example_device_def)
  have cons: "links_consistent ?tb" by (simp add: links_consistent_def)
  have free: "no_relink (connection_steps ?result) ?tb"
    by (simp add: connection_steps_def link_of_def write_interface_connections_def
        get_interface_def new_link_def connect_interface_def string_of_nat.simps example_device_def)
  obtain tb' where run: "write_connections_to_testbed ?result ?tb = Inr tb'"
    and ls: "links tb' = [\<lparr>link_name = ''Link_0'', link_interfaces = [(''A'', ''Gi1''), (''B'', ''Gi1'')]\<rparr>]"
    by (simp add: write_interface_connections_def get_interface_def new_link_def
        connect_interface_def string_of_nat.simps example_device_def)
  from link_commit_one_link [OF wf cons free run] run ls show ?thesis by simp
qed

text \<open>
  C2, as the spec has it, fails. Both interfaces of A report B's Gi1: the commit of the
  second one finds its local interface without a link and creates Link_1, with B's Gi1,
  a member of Link_0 already, among its members.
\<close>

theorem second_link_counterexample:
  "at_most_one_link \<lparr>devices = [(''A'', example_device [''Gi1'', ''Gi2'']), (''B'', example_device [''Gi1''])], links = []\<rparr> \<and>
   (case write_connections_to_testbed
      [(''A'', [(''Gi1'', [(''B'', ''Gi1'')]), (''Gi2'', [(''B'', ''Gi1'')])])]
      \<lparr>devices = [(''A'', example_device [''Gi1'', ''Gi2'']), (''B'', example_device [''Gi1''])], links = []\<rparr> of
      Inl e \<Rightarrow> False
    | Inr tb \<Rightarrow>
        links tb = [\<lparr>link_name = ''Link_0'', link_interfaces = [(''A'', ''Gi1''), (''B'', ''Gi1'')]\<rparr>,
                    \<lparr>link_name = ''Link_1'', link_interfaces = [(''A'', ''Gi2''), (''B'', ''Gi1'')]\<rparr>] \<and>
        \<not> at_most_one_link tb)"
proof -
  let ?tb = "\<lparr>devices = [(''A'', example_device [''Gi1'', ''Gi2'']), (''B'', example_device [''Gi1''])], links = []\<rparr>"
  let ?ls = "[\<lparr>link_name = ''Link_0'', link_interfaces = [(''A'', ''Gi1''), (''B'', ''Gi1'')]\<rparr>,
              \<lparr>link_name = ''Link_1'', link_interfaces = [(''A'', ''Gi2''), (''B'', ''Gi1'')]\<rparr>]"
  have before: "at_most_one_link ?tb" by (simp add: at_most_one_link_def)
  obtain tb where run: "write_connections_to_testbed
      [(''A'', [(''Gi1'', [(''B'', ''Gi1'')]), (''Gi2'', [(''B'', ''Gi1'')])])] ?tb = Inr tb"
    and ls: "links tb = ?ls"
    by (simp add: write_interface_connections_def get_interface_def new_link_def
      connect_interface_def string_of_nat.simps example_device_def)
  have "\<not> at_most_one_link tb"
  proof
    assume "at_most_one_link tb"
    moreover have "0 < length (links tb)" and "1 < length (links tb)" and "(0::nat) \<noteq> 1"
      by (simp_all add: ls)
    ultimately have "set (link_interfaces (links tb ! 0)) \<inter> set (link_interfaces (links tb ! 1)) = {}"
      unfolding at_most_one_link_def by blast
    then show False by (simp add: ls)
  qed
  with before run ls show ?thesis by simp
qed

text \<open>
  Without the proviso on remote interfaces: a commit loses no link, no member and no
  interface, and keeps every back-reference a position of the links; the back-reference
  of an interface changes only when a step connects it to another link.
\<close>

lemma keeps_members_refl: "keeps_members tb tb"
  by (simp add: keeps_members_def)

lemma keeps_members_trans: "keeps_members a b \<Longrightarrow> keeps_members b c \<Longrightarrow> keeps_members a c"
  unfolding keeps_members_def by (meson dual_order.trans order_less_le_trans)

lemma keeps_members_connect: "keeps_members tb (connect_interface l r tb)"
  unfolding keeps_members_def
proof (intro conjI allI impI)
  show "length (links tb) \<le> length (links (connect_interface l r tb))" by simp
next
  fix l' assume "l' < length (links tb)"
  then show "set (link_interfaces (links tb ! l')) \<subseteq> set (link_interfaces (links (connect_interface l r tb) ! l'))"
    by (cases "l' = l") (auto simp: connect_interface_def)
next
  fix q assume "\<exists>i. get_interface tb q = Inr i"
  then show "\<exists>i. get_interface (connect_interface l r tb) q = Inr i"
    by (simp add: get_interface_connect_exists)
qed

lemma keeps_members_fold_connect: "keeps_members tb (fold (connect_interface l) rs tb)"
proof (induction rs arbitrary: tb)
  case Nil
  then show ?case by (simp add: keeps_members_refl)
next
  case (Cons r rs)
  from keeps_members_connect [of tb l r] Cons [of "connect_interface l r tb"]
  show ?case by (auto intro: keeps_members_trans)
qed

lemma keeps_members_extend:
  "extend_link l entries tb = Inr tb' \<Longrightarrow> keeps_members tb tb'"
proof (induction entries arbitrary: tb)
  case Nil
  then show ?case by (simp add: keeps_members_refl)
next
  case (Cons r entries)
  obtain dev dest_int where r: "r = (dev, dest_int)" by (cases r)
  let ?tb = "if r \<in> set (link_interfaces (links tb ! l)) then tb else connect_interface l r tb"
  from Cons.prems r have run: "extend_link l entries ?tb = Inr tb'"
    by (auto split: sum.splits if_splits)
  have "keeps_members tb ?tb" by (simp add: keeps_members_refl keeps_members_connect)
  with Cons.IH [OF run] show ?case by (rule keeps_members_trans [rotated])
qed

lemma keeps_members_add_link: "keeps_members tb (tb\<lparr>links := links tb @ [lk]\<rparr>)"
  by (simp add: keeps_members_def nth_append)

lemma keeps_members_step:
  assumes "write_interface_connections device interface_name entries tb = Inr tb'"
  shows "keeps_members tb tb'"
proof -
  from assms obtain i where i: "get_interface tb (device, interface_name) = Inr i"
    by (auto simp: write_interface_connections_def split: sum.splits)
  show ?thesis
  proof (cases "interface_link i")
    case None
    with assms i obtain int_list where
      tb': "tb' = new_link (''Link_'' @ string_of_nat (length (links tb))) int_list tb"
      by (auto simp: write_interface_connections_def split: sum.splits)
    show ?thesis unfolding tb' new_link_def
      using keeps_members_add_link keeps_members_fold_connect by (rule keeps_members_trans)
  next
    case (Some l)
    with assms i have "extend_link l entries tb = Inr tb'"
      by (simp add: write_interface_connections_def)
    then show ?thesis by (rule keeps_members_extend)
  qed
qed

lemma links_wf_fold_connect:
  "links_wf tb \<Longrightarrow> l < length (links tb) \<Longrightarrow> links_wf (fold (connect_interface l) rs tb)"
  by (induction rs arbitrary: tb) (simp_all add: links_wf_connect)

lemma links_wf_extend:
  "links_wf tb \<Longrightarrow> l < length (links tb) \<Longrightarrow> extend_link l entries tb = Inr tb' \<Longrightarrow> links_wf tb'"
proof (induction entries arbitrary: tb)
  case Nil
  then show ?case by simp
next
  case (Cons r entries)
  obtain dev dest_int where r: "r = (dev, dest_int)" by (cases r)
  let ?tb = "if r \<in> set (link_interfaces (links tb ! l)) then tb else connect_interface l r tb"
  from Cons.prems(3) r have run: "extend_link l entries ?tb = Inr tb'"
    by (auto split: sum.splits if_splits)
  have "links_wf ?tb" and "l < length (links ?tb)"
    using Cons.prems(1,2) by (simp_all add: links_wf_connect)
  from Cons.IH [OF this run] show ?case .
qed

lemma links_wf_step:
  assumes "links_wf tb"
    and "write_interface_connections device interface_name entries tb = Inr tb'"
  shows "links_wf tb'"
proof -
  from assms(2) obtain i where i: "get_interface tb (device, interface_name) = Inr i"
    by (auto simp: write_interface_connections_def split: sum.splits)
  then have lo: "link_of tb (device, interface_name) = interface_link i"
    by (simp add: link_of_def)
  show ?thesis
  proof (cases "interface_link i")
    case None
    with assms(2) i obtain int_list where
      tb': "tb' = new_link (''Link_'' @ string_of_nat (length (links tb))) int_list tb"
      by (auto simp: write_interface_connections_def split: sum.splits)
    let ?tb = "tb\<lparr>links := links tb @ [\<lparr>link_name = ''Link_'' @ string_of_nat (length (links tb)),
      link_interfaces = []\<rparr>]\<rparr>"
    have "links_wf ?tb" using assms(1) by (rule links_wf_add_link)
    moreover have "length (links tb) < length (links ?tb)" by simp
    ultimately have "links_wf (fold (connect_interface (length (links tb))) int_list ?tb)"
      by (rule links_wf_fold_connect)
    then show ?thesis by (simp add: tb' new_link_def)
  next
    case (Some l)
    with assms(2) i have run: "extend_link l entries tb = Inr tb'"
      by (simp add: write_interface_connections_def)
    from Some lo assms(1) have "l < length (links tb)" by (auto intro: links_wf_link_of)
    with assms(1) show ?thesis using run by (rule links_wf_extend)
  qed
qed

lemma links_wf_steps:
  "links_wf tb \<Longrightarrow> write_steps steps tb = Inr tb' \<Longrightarrow> links_wf tb'"
proof (induction steps arbitrary: tb)
  case Nil
  then show ?case by simp
next
  case (Cons s steps)
  obtain device interface_name entries where s: "s = (device, interface_name, entries)"
    by (cases s)
  from Cons.prems(2) s obtain tb1 where
    one: "write_interface_connections device interface_name entries tb = Inr tb1"
    and run: "write_steps steps tb1 = Inr tb'"
    by (auto split: sum.splits)
  from Cons.prems(1) one have "links_wf tb1" by (rule links_wf_step)
  then show ?case using run by (rule Cons.IH)
qed

lemma fold_connect_link_of:
  "q \<notin> set rs \<Longrightarrow> link_of (fold (connect_interface l) rs tb) q = link_of tb q"
  by (induction rs arbitrary: tb) (auto simp: link_of_connect)

lemma extend_link_link_of:
  assumes "l < length (links tb)" and "extend_link l entries tb = Inr tb'"
    and "link_of tb q = Some m"
    and "q \<in> set entries \<longrightarrow> m = l \<or> q \<in> set (link_interfaces (links tb ! l))"
  shows "link_of tb' q = Some m"
  using assms
proof (induction entries arbitrary: tb)
  case Nil
  then show ?case by simp
next
  case (Cons r entries)
  obtain dev dest_int where r: "r = (dev, dest_int)" by (cases r)
  show ?case
  proof (cases "r \<in> set (link_interfaces (links tb ! l))")
    case True
    with Cons.prems(2) r have run: "extend_link l entries tb = Inr tb'"
      by (auto split: sum.splits)
    from Cons.prems(4) True have "q \<in> set entries \<longrightarrow> m = l \<or> q \<in> set (link_interfaces (links tb ! l))"
      by auto
    from Cons.IH [OF Cons.prems(1) run Cons.prems(3) this] show ?thesis .
  next
    case False
    let ?tb = "connect_interface l r tb"
    from False Cons.prems(2) r have run: "extend_link l entries ?tb = Inr tb'"
      by (auto split: sum.splits)
    have len: "l < length (links ?tb)" using Cons.prems(1) by simp
    have lo: "link_of ?tb q = Some m"
      using Cons.prems(3,4) False by (auto simp: link_of_connect)
    have mem: "set (link_interfaces (links ?tb ! l)) = insert r (set (link_interfaces (links tb ! l)))"
      using Cons.prems(1) by (simp add: links_connect)
    have "q \<in> set entries \<longrightarrow> m = l \<or> q \<in> set (link_interfaces (links ?tb ! l))"
      using Cons.prems(4) mem by auto
    from Cons.IH [OF len run lo this] show ?thesis .
  qed
qed

lemma step_link_of:
  assumes "links_wf tb"
    and "write_interface_connections device interface_name entries tb = Inr tb'"
    and "link_of tb q = Some m"
    and "q \<in> set entries \<longrightarrow>
          (case link_of tb (device, interface_name) of
             None \<Rightarrow> False
           | Some l \<Rightarrow> m = l \<or> q \<in> set (link_interfaces (links tb ! l)))"
  shows "link_of tb' q = Some m"
proof -
  from assms(2) obtain i where i: "get_interface tb (device, interface_name) = Inr i"
    by (auto simp: write_interface_connections_def split: sum.splits)
  then have lo: "link_of tb (device, interface_name) = interface_link i"
    by (simp add: link_of_def)
  show ?thesis
  proof (cases "interface_link i")
    case None
    with assms(2) i obtain int_list where
      col: "collect_interfaces tb entries [(device, interface_name)] = Inr int_list"
      and tb': "tb' = new_link (''Link_'' @ string_of_nat (length (links tb))) int_list tb"
      by (auto simp: write_interface_connections_def split: sum.splits)
    from collect_interfaces_result [OF col]
    have mem: "set int_list = insert (device, interface_name) (set entries)" by auto
    from assms(3) lo None have "q \<noteq> (device, interface_name)" by auto
    moreover from assms(4) lo None have "q \<notin> set entries" by auto
    ultimately have "q \<notin> set int_list" using mem by simp
    then show ?thesis unfolding tb' new_link_def using assms(3)
      by (simp add: fold_connect_link_of)
  next
    case (Some l)
    with assms(2) i have run: "extend_link l entries tb = Inr tb'"
      by (simp add: write_interface_connections_def)
    from Some lo assms(1) have l: "l < length (links tb)" by (auto intro: links_wf_link_of)
    from assms(4) lo Some have "q \<in> set entries \<longrightarrow> m = l \<or> q \<in> set (link_interfaces (links tb ! l))"
      by simp
    from extend_link_link_of [OF l run assms(3) this] show ?thesis .
  qed
qed

lemma entries_linked_step:
  assumes "links_wf tb"
    and "entries_linked tb (d', i', es')"
    and "write_interface_connections device interface_name entries tb = Inr tb1"
    and "(d', i') \<in> set entries \<longrightarrow>
          (case link_of tb (device, interface_name) of
             None \<Rightarrow> False
           | Some l \<Rightarrow> link_of tb (d', i') = Some l \<or> (d', i') \<in> set (link_interfaces (links tb ! l)))"
  shows "entries_linked tb1 (d', i', es')"
proof -
  from assms(2) obtain m where m: "m < length (links tb)"
    and lo: "link_of tb (d', i') = Some m"
    and all: "\<forall>r \<in> set es'. (\<exists>i. get_interface tb r = Inr i) \<and> r \<in> set (link_interfaces (links tb ! m))"
    by (auto simp: entries_linked_def)
  from assms(4) lo have "(d', i') \<in> set entries \<longrightarrow>
          (case link_of tb (device, interface_name) of
             None \<Rightarrow> False
           | Some l \<Rightarrow> m = l \<or> (d', i') \<in> set (link_interfaces (links tb ! l)))"
    by (auto split: option.splits)
  from step_link_of [OF assms(1,3) lo this] have lo1: "link_of tb1 (d', i') = Some m" .
  from assms(3) have "keeps_members tb tb1" by (rule keeps_members_step)
  with m all have "m < length (links tb1)"
    and "\<forall>r \<in> set es'. (\<exists>i. get_interface tb1 r = Inr i) \<and> r \<in> set (link_interfaces (links tb1 ! m))"
    unfolding keeps_members_def by (auto 0 3)
  with lo1 show ?thesis unfolding entries_linked_def by auto
qed

lemma write_steps_keeps_local:
  assumes "links_wf tb" and "\<forall>(d, i, es) \<in> set done. entries_linked tb (d, i, es) \<and> (d, i) \<in> set locals"
    and "keeps_local_links locals steps tb" and "write_steps steps tb = Inr tb'"
  shows "\<forall>s \<in> set done \<union> set steps. entries_linked tb' s"
  using assms
proof (induction steps arbitrary: tb "done" locals)
  case Nil
  then show ?case by auto
next
  case (Cons s steps)
  obtain device interface_name entries where s: "s = (device, interface_name, entries)"
    by (cases s)
  from Cons.prems(4) s obtain tb1 where
    one: "write_interface_connections device interface_name entries tb = Inr tb1"
    and run: "write_steps steps tb1 = Inr tb'"
    by (auto split: sum.splits)
  from Cons.prems(3) s one have
    free: "\<forall>r \<in> set entries. r \<in> set locals \<longrightarrow>
          (case link_of tb (device, interface_name) of
             None \<Rightarrow> False
           | Some l \<Rightarrow> link_of tb r = Some l \<or> r \<in> set (link_interfaces (links tb ! l)))"
    and rest: "keeps_local_links ((device, interface_name) # locals) steps tb1"
    by auto
  have wf1: "links_wf tb1" using Cons.prems(1) one by (rule links_wf_step)
  have linked1: "entries_linked tb1 s"
    unfolding s using Cons.prems(1) one by (rule entries_linked_after_step)
  have old: "entries_linked tb1 (d, i, es) \<and> (d, i) \<in> set ((device, interface_name) # locals)"
    if "(d, i, es) \<in> set done" for d i es
  proof -
    from that Cons.prems(2) have el: "entries_linked tb (d, i, es)" and loc: "(d, i) \<in> set locals"
      by auto
    from free loc have "(d, i) \<in> set entries \<longrightarrow>
          (case link_of tb (device, interface_name) of
             None \<Rightarrow> False
           | Some l \<Rightarrow> link_of tb (d, i) = Some l \<or> (d, i) \<in> set (link_interfaces (links tb ! l)))"
      by blast
    from entries_linked_step [OF Cons.prems(1) el one this] loc show ?thesis by simp
  qed
  have "\<forall>(d, i, es) \<in> set (s # done). entries_linked tb1 (d, i, es) \<and>
      (d, i) \<in> set ((device, interface_name) # locals)"
    using old linked1 s by auto
  from Cons.IH [OF wf1 this rest run] show ?case by auto
qed

lemma link_size_connect:
  assumes "l < length (links tb)"
  shows "link_size (connect_interface l p tb) = Suc (link_size tb)"
proof -
  let ?f = "\<lambda>lk. length (link_interfaces lk)"
  let ?x = "(links tb ! l)\<lparr>link_interfaces := link_interfaces (links tb ! l) @ [p]\<rparr>"
  have "sum_list (map ?f ((links tb)[l := ?x])) = sum_list ((map ?f (links tb))[l := ?f ?x])"
    by (simp add: map_update)
  also have "\<dots> = sum_list (map ?f (links tb)) + ?f ?x - map ?f (links tb) ! l"
    using assms by (simp add: sum_list_update)
  also have "\<dots> = Suc (sum_list (map ?f (links tb)))"
    using assms by simp
  finally show ?thesis by (simp add: link_size_def connect_interface_def)
qed

lemma link_size_fold_connect:
  "l < length (links tb) \<Longrightarrow> link_size (fold (connect_interface l) rs tb) = link_size tb + length rs"
  by (induction rs arbitrary: tb) (simp_all add: link_size_connect)

lemma link_size_extend:
  assumes "l < length (links tb)" and "extend_link l entries tb = Inr tb'"
  shows "link_size tb \<le> link_size tb' \<and>
         (link_size tb' \<le> link_size tb \<longrightarrow>
            (\<forall>r \<in> set entries. (\<exists>i. get_interface tb r = Inr i) \<and>
               r \<in> set (link_interfaces (links tb ! l))))"
  using assms
proof (induction entries arbitrary: tb)
  case Nil
  then show ?case by simp
next
  case (Cons r entries)
  obtain dev dest_int where r: "r = (dev, dest_int)" by (cases r)
  from Cons.prems(2) r obtain i where i: "get_interface tb r = Inr i"
    by (auto split: sum.splits)
  show ?case
  proof (cases "r \<in> set (link_interfaces (links tb ! l))")
    case True
    with Cons.prems(2) r i have "extend_link l entries tb = Inr tb'" by simp
    from Cons.IH [OF Cons.prems(1) this] True i show ?thesis by auto
  next
    case False
    let ?tb = "connect_interface l r tb"
    from False Cons.prems(2) r i have run: "extend_link l entries ?tb = Inr tb'" by simp
    have len: "l < length (links ?tb)" using Cons.prems(1) by simp
    from Cons.IH [OF len run] have "link_size ?tb \<le> link_size tb'" by simp
    then have "link_size tb < link_size tb'"
      using Cons.prems(1) by (simp add: link_size_connect)
    then show ?thesis by simp
  qed
qed

lemma link_size_step:
  assumes "links_wf tb"
    and "write_interface_connections device interface_name entries tb = Inr tb'"
  shows "link_size tb \<le> link_size tb' \<and>
         (link_size tb' \<le> link_size tb \<longrightarrow> entries_linked tb (device, interface_name, entries))"
proof -
  from assms(2) obtain i where i: "get_interface tb (device, interface_name) = Inr i"
    by (auto simp: write_interface_connections_def split: sum.splits)
  then have lo: "link_of tb (device, interface_name) = interface_link i"
    by (simp add: link_of_def)
  show ?thesis
  proof (cases "interface_link i")
    case None
    with assms(2) i obtain int_list where
      tb': "tb' = new_link (''Link_'' @ string_of_nat (length (links tb))) int_list tb"
      by (auto simp: write_interface_connections_def split: sum.splits)
    let ?tb = "tb\<lparr>links := links tb @ [\<lparr>link_name = ''Link_'' @ string_of_nat (length (links tb)),
      link_interfaces = []\<rparr>]\<rparr>"
    have "link_size ?tb = Suc (link_size tb)" by (simp add: link_size_def)
    moreover have "length (links tb) < length (links ?tb)" by simp
    then have "link_size (fold (connect_interface (length (links tb))) int_list ?tb)
        = link_size ?tb + length int_list"
      by (rule link_size_fold_connect)
    ultimately have "link_size tb < link_size tb'" by (simp add: tb' new_link_def)
    then show ?thesis by simp
  next
    case (Some l)
    with assms(2) i have run: "extend_link l entries tb = Inr tb'"
      by (simp add: write_interface_connections_def)
    from Some lo assms(1) have l: "l < length (links tb)" by (auto intro: links_wf_link_of)
    from link_size_extend [OF l run] l lo Some show ?thesis
      by (auto simp: entries_linked_def)
  qed
qed

lemma link_size_steps:
  assumes "links_wf tb" and "write_steps steps tb = Inr tb'"
  shows "link_size tb \<le> link_size tb' \<and>
         (link_size tb' \<le> link_size tb \<longrightarrow> (\<forall>s \<in> set steps. entries_linked tb s))"
  using assms
proof (induction steps arbitrary: tb)
  case Nil
  then show ?case by simp
next
  case (Cons s steps)
  obtain device interface_name entries where s: "s = (device, interface_name, entries)"
    by (cases s)
  from Cons.prems(2) s obtain tb1 where
    one: "write_interface_connections device interface_name entries tb = Inr tb1"
    and run: "write_steps steps tb1 = Inr tb'"
    by (auto split: sum.splits)
  have wf1: "links_wf tb1" using Cons.prems(1) one by (rule links_wf_step)
  from link_size_step [OF Cons.prems(1) one]
  have le1: "link_size tb \<le> link_size tb1"
    and eq1: "link_size tb1 \<le> link_size tb \<Longrightarrow> entries_linked tb s"
    by (simp_all add: s)
  from Cons.IH [OF wf1 run]
  have le2: "link_size tb1 \<le> link_size tb'"
    and eq2: "link_size tb' \<le> link_size tb1 \<Longrightarrow> \<forall>s \<in> set steps. entries_linked tb1 s"
    by simp_all
  have "\<forall>s' \<in> set (s # steps). entries_linked tb s'" if "link_size tb' \<le> link_size tb"
  proof -
    from that le1 le2 have a: "link_size tb1 \<le> link_size tb" and b: "link_size tb' \<le> link_size tb1"
      by simp_all
    from eq1 [OF a] have first: "entries_linked tb s" .
    then have "write_interface_connections device interface_name entries tb = Inr tb"
      unfolding s by (rule entries_linked_fixed)
    with one have "tb1 = tb" by simp
    with eq2 [OF b] first show ?thesis by simp
  qed
  with le1 le2 show ?case by auto
qed

text \<open>
  C3, as the code has it. Link commit is idempotent for a connection record whose commit
  leaves the link of every local interface of the record in place: no entry moves an
  interface that is the local interface of an earlier step into another link. Committing
  such a record twice gives the graph of committing it once (and an error again if the
  first commit raised). In general, for a record that commits without error, the second
  commit changes nothing exactly when after the first commit every local interface of the
  record is in a link that has the remote interfaces of all its entries as members. The
  graph need not be consistent, and interfaces that are not local interfaces of the record
  may be moved.
\<close>

theorem link_commit_idempotent:
  assumes "links_wf tb"
  shows "(keeps_local_links [] (connection_steps result) tb \<longrightarrow>
            (case write_connections_to_testbed result tb of
               Inl e \<Rightarrow> Inl e
             | Inr tb1 \<Rightarrow> write_connections_to_testbed result tb1)
            = write_connections_to_testbed result tb) \<and>
         (\<forall>tb1. write_connections_to_testbed result tb = Inr tb1 \<longrightarrow>
            (write_connections_to_testbed result tb1 = Inr tb1 \<longleftrightarrow>
             (\<forall>s \<in> set (connection_steps result). entries_linked tb1 s)))"
proof (intro conjI impI allI)
  assume keep: "keeps_local_links [] (connection_steps result) tb"
  show "(case write_connections_to_testbed result tb of
           Inl e \<Rightarrow> Inl e
         | Inr tb1 \<Rightarrow> write_connections_to_testbed result tb1)
        = write_connections_to_testbed result tb"
  proof (cases "write_connections_to_testbed result tb")
    case (Inl e)
    then show ?thesis by simp
  next
    case (Inr tb1)
    then have run: "write_steps (connection_steps result) tb = Inr tb1"
      by (simp add: write_connections_to_testbed_steps)
    have "\<forall>(d, i, es) \<in> set []. entries_linked tb (d, i, es) \<and> (d, i) \<in> set []" by simp
    from write_steps_keeps_local [OF assms this keep run]
    have "\<forall>s \<in> set (connection_steps result). entries_linked tb1 s" by simp
    then have "write_steps (connection_steps result) tb1 = Inr tb1" by (rule write_steps_fixed)
    with Inr show ?thesis by (simp add: write_connections_to_testbed_steps)
  qed
next
  fix tb1
  assume "write_connections_to_testbed result tb = Inr tb1"
  then have run: "write_steps (connection_steps result) tb = Inr tb1"
    by (simp add: write_connections_to_testbed_steps)
  with assms have wf1: "links_wf tb1" by (rule links_wf_steps)
  show "write_connections_to_testbed result tb1 = Inr tb1 \<longleftrightarrow>
      (\<forall>s \<in> set (connection_steps result). entries_linked tb1 s)"
  proof
    assume "write_connections_to_testbed result tb1 = Inr tb1"
    then have "write_steps (connection_steps result) tb1 = Inr tb1"
      by (simp add: write_connections_to_testbed_steps)
    from link_size_steps [OF wf1 this]
    show "\<forall>s \<in> set (connection_steps result). entries_linked tb1 s" by simp
  next
    assume "\<forall>s \<in> set (connection_steps result). entries_linked tb1 s"
    then have "write_steps (connection_steps result) tb1 = Inr tb1" by (rule write_steps_fixed)
    then show "write_connections_to_testbed result tb1 = Inr tb1"
      by (simp add: write_connections_to_testbed_steps)
  qed
qed

text \<open>
  The record in which both interfaces of A report B's Gi1 moves B's Gi1 into a second link
  and is idempotent. In the second record C's Gi1 reports A's Gi1 and B's Gi1: A's Gi1, the
  local interface of the first step, is moved into Link_1, which has B's Gi1 as well, and
  the second commit changes nothing.
\<close>

theorem link_commit_idempotent_witness:
  "(case write_connections_to_testbed
           [(''A'', [(''Gi1'', [(''B'', ''Gi1'')]), (''Gi2'', [(''B'', ''Gi1'')])])]
           \<lparr>devices = [(''A'', example_device [''Gi1'', ''Gi2'']), (''B'', example_device [''Gi1''])],
              links = []\<rparr> of
      Inl e \<Rightarrow> False
    | Inr tb1 \<Rightarrow>
        links tb1 = [\<lparr>link_name = ''Link_0'', link_interfaces = [(''A'', ''Gi1''), (''B'', ''Gi1'')]\<rparr>,
                     \<lparr>link_name = ''Link_1'', link_interfaces = [(''A'', ''Gi2''), (''B'', ''Gi1'')]\<rparr>] \<and>
        write_connections_to_testbed
          [(''A'', [(''Gi1'', [(''B'', ''Gi1'')]), (''Gi2'', [(''B'', ''Gi1'')])])] tb1 = Inr tb1) \<and>
   \<not> keeps_local_links []
        (connection_steps
           [(''A'', [(''Gi1'', [(''B'', ''Gi1'')])]), (''C'', [(''Gi1'', [(''A'', ''Gi1''), (''B'', ''Gi1'')])])])
        \<lparr>devices = [(''A'', example_device [''Gi1'']), (''B'', example_device [''Gi1'']),
                    (''C'', example_device [''Gi1''])], links = []\<rparr> \<and>
   (case write_connections_to_testbed
           [(''A'', [(''Gi1'', [(''B'', ''Gi1'')])]), (''C'', [(''Gi1'', [(''A'', ''Gi1''), (''B'', ''Gi1'')])])]
           \<lparr>devices = [(''A'', example_device [''Gi1'']), (''B'', example_device [''Gi1'']),
                       (''C'', example_device [''Gi1''])], links = []\<rparr> of
      Inl e \<Rightarrow> False
    | Inr tb1 \<Rightarrow>
        write_connections_to_testbed
          [(''A'', [(''Gi1'', [(''B'', ''Gi1'')])]), (''C'', [(''Gi1'', [(''A'', ''Gi1''), (''B'', ''Gi1'')])])]
          tb1 = Inr tb1)"
proof -
  let ?tb = "\<lparr>devices = [(''A'', example_device [''Gi1'', ''Gi2'']), (''B'', example_device [''Gi1''])],
              links = []\<rparr>"
  let ?result = "[(''A'', [(''Gi1'', [(''B'', ''Gi1'')]), (''Gi2'', [(''B'', ''Gi1'')])])]"
  let ?tb' = "\<lparr>devices = [(''A'', example_device [''Gi1'']), (''B'', example_device [''Gi1'']),
                    (''C'', example_device [''Gi1''])], links = []\<rparr>"
  let ?result' = "[(''A'', [(''Gi1'', [(''B'', ''Gi1'')])]),
                   (''C'', [(''Gi1'', [(''A'', ''Gi1''), (''B'', ''Gi1'')])])]"
  have wf: "links_wf ?tb" by (simp add: links_wf_def example_device_def)
  have keep: "keeps_local_links [] (connection_steps ?result) ?tb"
    by (simp add: connection_steps_def link_of_def write_interface_connections_def
        get_interface_def new_link_def connect_interface_def string_of_nat.simps example_device_def)
  obtain tb1 where run: "write_connections_to_testbed ?result ?tb = Inr tb1"
    and ls: "links tb1 = [\<lparr>link_name = ''Link_0'', link_interfaces = [(''A'', ''Gi1''), (''B'', ''Gi1'')]\<rparr>,
                          \<lparr>link_name = ''Link_1'', link_interfaces = [(''A'', ''Gi2''), (''B'', ''Gi1'')]\<rparr>]"
    by (simp add: write_interface_connections_def get_interface_def new_link_def
        connect_interface_def string_of_nat.simps example_device_def)
  from link_commit_idempotent [OF wf, of ?result] keep run
  have twice: "write_connections_to_testbed ?result tb1 = Inr tb1" by simp
  have wf': "links_wf ?tb'" by (simp add: links_wf_def example_device_def)
  have moved: "\<not> keeps_local_links [] (connection_steps ?result') ?tb'"
    by (simp add: connection_steps_def link_of_def write_interface_connections_def
        get_interface_def new_link_def connect_interface_def string_of_nat.simps example_device_def)
  obtain tb1' where run': "write_connections_to_testbed ?result' ?tb' = Inr tb1'"
    and ls': "links tb1' = [\<lparr>link_name = ''Link_0'', link_interfaces = [(''A'', ''Gi1''), (''B'', ''Gi1'')]\<rparr>,
        \<lparr>link_name = ''Link_1'', link_interfaces = [(''C'', ''Gi1''), (''A'', ''Gi1''), (''B'', ''Gi1'')]\<rparr>]"
    and la: "link_of tb1' (''A'', ''Gi1'') = Some 1" and lc: "link_of tb1' (''C'', ''Gi1'') = Some 1"
    and ex: "\<forall>r \<in> {(''A'', ''Gi1''), (''B'', ''Gi1'')}. \<exists>i. get_interface tb1' r = Inr i"
    by (simp add: write_interface_connections_def get_interface_def new_link_def link_of_def
        connect_interface_def string_of_nat.simps example_device_def)
  have "\<forall>s \<in> set (connection_steps ?result'). entries_linked tb1' s"
    using ls' la lc ex by (simp add: connection_steps_def entries_linked_def)
  with link_commit_idempotent [OF wf', of ?result'] run'
  have twice': "write_connections_to_testbed ?result' tb1' = Inr tb1'" by blast
  from run ls twice moved run' twice' show ?thesis by simp
qed

text \<open>
  C3, as the spec has it, fails for a record with two local interfaces. A's Gi1 reports
  B's Gi1 and C's Gi1 reports A's Gi1. The first commit creates Link_0 for A and Link_1 for
  C, which takes A's Gi1 over; the second commit then finds A's Gi1 in Link_1, which lacks
  B's Gi1, and adds it: Link_1 has two members after the first commit and three after the
  second, and B's Gi1 refers to Link_1 instead of Link_0.
\<close>

theorem link_commit_twice_counterexample:
  "case write_connections_to_testbed
          [(''A'', [(''Gi1'', [(''B'', ''Gi1'')])]), (''C'', [(''Gi1'', [(''A'', ''Gi1'')])])]
          \<lparr>devices = [(''A'', example_device [''Gi1'']), (''B'', example_device [''Gi1'']),
                      (''C'', example_device [''Gi1''])], links = []\<rparr> of
     Inl e \<Rightarrow> False
   | Inr tb1 \<Rightarrow>
       link_name (links tb1 ! 1) = ''Link_1'' \<and>
       link_interfaces (links tb1 ! 1) = [(''C'', ''Gi1''), (''A'', ''Gi1'')] \<and>
       link_of tb1 (''A'', ''Gi1'') = Some 1 \<and> link_of tb1 (''B'', ''Gi1'') = Some 0 \<and>
       (case write_connections_to_testbed
               [(''A'', [(''Gi1'', [(''B'', ''Gi1'')])]), (''C'', [(''Gi1'', [(''A'', ''Gi1'')])])] tb1 of
          Inl e \<Rightarrow> False
        | Inr tb2 \<Rightarrow>
            link_name (links tb2 ! 1) = ''Link_1'' \<and>
            link_interfaces (links tb2 ! 1) = [(''C'', ''Gi1''), (''A'', ''Gi1''), (''B'', ''Gi1'')] \<and>
            link_of tb2 (''B'', ''Gi1'') = Some 1 \<and>
            tb2 \<noteq> tb1)"
  by (simp add: write_interface_connections_def get_interface_def new_link_def
      connect_interface_def string_of_nat.simps example_device_def link_of_def)

section \<open>The merge into the configuration\<close>

lemma merge_devices_keeps:
  "map_of ds name = Some e \<Longrightarrow> map_of (merge_devices gs ds) name = Some e"
proof (induction gs arbitrary: ds)
  case Nil
  then show ?case by simp
next
  case (Cons g gs)
  obtain n v where g: "g = (n, v)" by (cases g)
  from Cons.prems have "map_of (if map_of ds n = None then ds @ [(n, Generated v)] else ds) name = Some e"
    by (auto simp: map_add_def)
  then show ?case unfolding g by (simp add: Cons.IH del: map_of_append)
qed

lemma dict_update_other:
  "k \<notin> fst ` set other \<Longrightarrow> map_of (dict_update d other) k = map_of d k"
  unfolding dict_update_def
  by (induction other arbitrary: d) (auto simp: update_conv')

lemma dict_update_new:
  "k \<in> fst ` set other \<Longrightarrow> \<exists>v. (k, v) \<in> set other \<and> map_of (dict_update d other) k = Some v"
  unfolding dict_update_def
proof (induction other arbitrary: d)
  case Nil
  then show ?case by simp
next
  case (Cons x other)
  obtain k' v' where x: "x = (k', v')" by (cases x)
  show ?case
  proof (cases "k \<in> fst ` set other")
    case True
    from Cons.IH [OF this, of "AList.update k' v' d"] show ?thesis by (auto simp: x)
  next
    case False
    with Cons.prems x have k: "k = k'" by auto
    from False have "map_of (dict_update (AList.update k' v' d) other) k = map_of (AList.update k' v' d) k"
      by (rule dict_update_other)
    with k x show ?thesis by (auto simp: dict_update_def update_conv')
  qed
qed

lemma merge_topology_entry:
  assumes "map_of topo name = Some e" and "distinct (map fst gen)"
    and "merge_topology blank gen topo = Inr out"
  shows "(case map_of gen name of
            None \<Rightarrow> map_of out name = Some e
          | Some ifs \<Rightarrow> \<exists>old. entry_interfaces e = Some old \<and>
              map_of out name = Some (e\<lparr>entry_interfaces := Some (dict_update old ifs)\<rparr>))"
  using assms
proof (induction gen arbitrary: topo e)
  case Nil
  then show ?case by simp
next
  case (Cons g gen)
  obtain n ifs where g: "g = (n, ifs)" by (cases g)
  from Cons.prems(2) g have dist: "distinct (map fst gen)" and n: "n \<notin> fst ` set gen" by auto
  show ?case
  proof (cases "n = name")
    case True
    with Cons.prems(1,3) g obtain old where old: "entry_interfaces e = Some old"
      and run: "merge_topology blank gen
          (AList.update name (e\<lparr>entry_interfaces := Some (dict_update old ifs)\<rparr>) topo) = Inr out"
      by (auto split: option.splits)
    have "map_of (AList.update name (e\<lparr>entry_interfaces := Some (dict_update old ifs)\<rparr>) topo) name
        = Some (e\<lparr>entry_interfaces := Some (dict_update old ifs)\<rparr>)"
      by (simp add: update_conv')
    moreover from n True have "map_of gen name = None"
      by (simp add: map_of_eq_None_iff)
    ultimately have "map_of out name = Some (e\<lparr>entry_interfaces := Some (dict_update old ifs)\<rparr>)"
      using Cons.IH [OF _ dist run] by fastforce
    with old True g show ?thesis by simp
  next
    case False
    from Cons.prems(3) g obtain topo' where run: "merge_topology blank gen topo' = Inr out"
      and topo': "topo' = topo @ [(n, \<lparr>entry_interfaces = Some ifs, entry_other = blank\<rparr>)] \<or>
          (\<exists>e'. topo' = AList.update n e' topo)"
      by (auto split: option.splits)
    from topo' False Cons.prems(1) have "map_of topo' name = Some e"
      by (auto simp: update_conv' map_add_def)
    from Cons.IH [OF this dist run] False g show ?thesis by simp
  qed
qed


lemma set_update_subset:
  "(k', v') \<in> set (AList.update k v al) \<Longrightarrow> (k', v') \<in> set al \<or> (k', v') = (k, v)"
  by (induction al) (auto split: if_splits)

lemma interface_dict_keys:
  "fst ` set (interface_dict ls d) \<subseteq> fst ` set (interfaces d)"
proof -
  have "fst ` set (fold (\<lambda>(name, i). AList.update name (interface_entry ls i)) xs acc)
      \<subseteq> fst ` set acc \<union> fst ` set xs" for xs and acc :: "(string \<times> yaml_interface) list"
  proof (induction xs arbitrary: acc)
    case Nil
    then show ?case by simp
  next
    case (Cons x xs)
    obtain n i where x: "x = (n, i)" by (cases x)
    from Cons.IH [of "AList.update n (interface_entry ls i) acc"]
    show ?case by (auto simp: x dom_update)
  qed
  from this [of "interfaces d" "[]"] show ?thesis by (simp add: interface_dict_def)
qed

lemma build_yaml_dict_topology:
  assumes "build_yaml_dict credential_dict ls known ds (devs, topo, connect) = Inr (devs', topo')"
    and "distinct (map fst topo)"
    and "\<forall>(n, ifs) \<in> set topo. \<exists>d. (n, d) \<in> set all \<and> ifs = interface_dict ls d"
    and "set ds \<subseteq> set all"
  shows "distinct (map fst topo') \<and>
         (\<forall>(n, ifs) \<in> set topo'. \<exists>d. (n, d) \<in> set all \<and> ifs = interface_dict ls d)"
  using assms
proof (induction ds arbitrary: devs topo connect)
  case Nil
  then show ?case by simp
next
  case (Cons x ds)
  obtain name d where x: "x = (name, d)" by (cases x)
  let ?topo = "AList.update name (interface_dict ls d) topo"
  from Cons.prems(1) x obtain devs1 connect1 where
    run: "build_yaml_dict credential_dict ls known ds (devs1, ?topo, connect1) = Inr (devs', topo')"
    by (auto simp: Let_def split: if_splits prod.splits option.splits)
  have "distinct (map fst ?topo)" using Cons.prems(2) by (rule distinct_update)
  moreover have "\<forall>(n, ifs) \<in> set ?topo. \<exists>d. (n, d) \<in> set all \<and> ifs = interface_dict ls d"
    using Cons.prems(3,4) x by (auto dest!: set_update_subset)
  moreover have "set ds \<subseteq> set all" using Cons.prems(4) by simp
  ultimately show ?case using Cons.IH [OF run] by blast
qed

lemma key_of_map_of: "map_of xs k = Some v \<Longrightarrow> k \<in> fst ` set xs"
  by (auto dest: map_of_SomeD intro: rev_image_eqI)

text \<open>
  What the merge adds. Every device of the graph has an entry in the topology of
  \<open>yaml_dict\<close>, and one in its devices unless the input has the device; a device
  that the input lacks is added with the generated entry, a topology entry that the input
  lacks with the generated interfaces, and the interfaces of an existing topology entry
  are updated with the generated ones.
\<close>

lemma build_yaml_dict_keys:
  assumes "build_yaml_dict credential_dict ls known ds (devs, topo, connect) = Inr (devs', topo')"
  shows "fst ` set topo \<union> fst ` set ds \<subseteq> fst ` set topo'"
  using assms
proof (induction ds arbitrary: devs topo connect)
  case Nil
  then show ?case by simp
next
  case (Cons x ds)
  obtain name d where x: "x = (name, d)" by (cases x)
  let ?topo = "AList.update name (interface_dict ls d) topo"
  from Cons.prems x obtain devs1 connect1 where
    run: "build_yaml_dict credential_dict ls known ds (devs1, ?topo, connect1) = Inr (devs', topo')"
    by (auto simp: Let_def split: if_splits prod.splits option.splits)
  from Cons.IH [OF run] show ?case by (auto simp: x dom_update)
qed

lemma build_yaml_dict_step:
  assumes "build_yaml_dict credential_dict ls known ((name, d) # ds) (devs, topo, connect) = Inr (devs', topo')"
  shows "\<exists>devs1 connect1.
           build_yaml_dict credential_dict ls known ds
             (devs1, AList.update name (interface_dict ls d) topo, connect1) = Inr (devs', topo') \<and>
           (if name \<in> set known then devs1 = devs
            else \<exists>g. devs1 = AList.update name g devs \<and> yaml_type g = device_type d \<and>
                   yaml_os g = device_os d \<and> yaml_credentials g = credential_dict)"
proof (cases "name \<in> set known")
  case True
  with assms have "build_yaml_dict credential_dict ls known ds
      (devs, AList.update name (interface_dict ls d) topo, connect) = Inr (devs', topo')"
    by (simp add: Let_def)
  with True show ?thesis by auto
next
  case False
  obtain conn_dict c where w: "write_yaml_connections (connections d) ([], connect) = (conn_dict, c)"
    by (cases "write_yaml_connections (connections d) ([], connect)")
  show ?thesis
  proof (cases c)
    case None
    with assms False w show ?thesis by (simp add: Let_def)
  next
    case (Some connect1)
    let ?g = "\<lparr>yaml_type = device_type d, yaml_os = device_os d,
                  yaml_credentials = credential_dict,
                  yaml_connections = AList.update ''defaults'' (Yaml_defaults connect1) conn_dict\<rparr>"
    from Some assms False w have "build_yaml_dict credential_dict ls known ds
        (AList.update name ?g devs, AList.update name (interface_dict ls d) topo, Some connect1)
        = Inr (devs', topo')"
      by (simp add: Let_def)
    moreover have "yaml_type ?g = device_type d \<and> yaml_os ?g = device_os d \<and>
        yaml_credentials ?g = credential_dict" by simp
    ultimately show ?thesis using False by (intro exI [of _ "AList.update name ?g devs"] exI [of _ "Some connect1"]) auto
  qed
qed

lemma build_yaml_dict_devices:
  assumes "build_yaml_dict credential_dict ls known ds (devs, topo, connect) = Inr (devs', topo')"
    and "(n, g) \<in> set devs'"
  shows "(n, g) \<in> set devs \<or>
         (\<exists>d. (n, d) \<in> set ds \<and> yaml_type g = device_type d \<and> yaml_os g = device_os d \<and>
               yaml_credentials g = credential_dict)"
  using assms
proof (induction ds arbitrary: devs topo connect)
  case Nil
  then show ?case by simp
next
  case (Cons x ds)
  obtain name d where x: "x = (name, d)" by (cases x)
  from build_yaml_dict_step [OF Cons.prems(1) [unfolded x]] obtain devs1 connect1 where
    run: "build_yaml_dict credential_dict ls known ds
             (devs1, AList.update name (interface_dict ls d) topo, connect1) = Inr (devs', topo')"
    and step: "if name \<in> set known then devs1 = devs
            else \<exists>g. devs1 = AList.update name g devs \<and> yaml_type g = device_type d \<and>
                   yaml_os g = device_os d \<and> yaml_credentials g = credential_dict"
    by blast
  from step have devs1: "devs1 = devs \<or> (\<exists>g. devs1 = AList.update name g devs \<and> yaml_type g = device_type d \<and>
                   yaml_os g = device_os d \<and> yaml_credentials g = credential_dict)"
    by (cases "name \<in> set known") simp_all
  from Cons.IH [OF run Cons.prems(2)] consider "(n, g) \<in> set devs1"
    | "\<exists>d. (n, d) \<in> set ds \<and> yaml_type g = device_type d \<and> yaml_os g = device_os d \<and>
               yaml_credentials g = credential_dict" by blast
  then show ?case
  proof cases
    case 1
    from devs1 show ?thesis
    proof
      assume "devs1 = devs"
      with 1 show ?thesis by simp
    next
      assume "\<exists>g. devs1 = AList.update name g devs \<and> yaml_type g = device_type d \<and>
                   yaml_os g = device_os d \<and> yaml_credentials g = credential_dict"
      then obtain g' where g': "devs1 = AList.update name g' devs" "yaml_type g' = device_type d"
        "yaml_os g' = device_os d" "yaml_credentials g' = credential_dict" by blast
      from 1 g'(1) have "(n, g) \<in> set devs \<or> (n, g) = (name, g')"
        by (auto dest: set_update_subset)
      then show ?thesis
      proof
        assume "(n, g) \<in> set devs"
        then show ?thesis by simp
      next
        assume "(n, g) = (name, g')"
        with g' have "(n, d) \<in> set (x # ds)" "yaml_type g = device_type d"
          "yaml_os g = device_os d" "yaml_credentials g = credential_dict"
          by (simp_all add: x)
        then show ?thesis by blast
      qed
    qed
  next
    case 2
    then obtain d' where "(n, d') \<in> set (x # ds)" "yaml_type g = device_type d'"
      "yaml_os g = device_os d'" "yaml_credentials g = credential_dict" by auto
    then show ?thesis by blast
  qed
qed

lemma build_yaml_dict_device_keys:
  assumes "build_yaml_dict credential_dict ls known ds (devs, topo, connect) = Inr (devs', topo')"
  shows "fst ` set devs \<union> {n \<in> fst ` set ds. n \<notin> set known} \<subseteq> fst ` set devs'"
  using assms
proof (induction ds arbitrary: devs topo connect)
  case Nil
  then show ?case by simp
next
  case (Cons x ds)
  obtain name d where x: "x = (name, d)" by (cases x)
  from build_yaml_dict_step [OF Cons.prems(1) [unfolded x]] obtain devs1 connect1 where
    run: "build_yaml_dict credential_dict ls known ds
             (devs1, AList.update name (interface_dict ls d) topo, connect1) = Inr (devs', topo')"
    and step: "if name \<in> set known then devs1 = devs
            else \<exists>g. devs1 = AList.update name g devs \<and> yaml_type g = device_type d \<and>
                   yaml_os g = device_os d \<and> yaml_credentials g = credential_dict"
    by blast
  from step have devs1: "if name \<in> set known then devs1 = devs else \<exists>g. devs1 = AList.update name g devs"
    by (cases "name \<in> set known") auto
  have a: "fst ` set devs \<subseteq> fst ` set devs1"
    and a': "name \<notin> set known \<Longrightarrow> name \<in> fst ` set devs1"
  proof -
    show "fst ` set devs \<subseteq> fst ` set devs1"
    proof (cases "name \<in> set known")
      case True
      with devs1 show ?thesis by simp
    next
      case False
      with devs1 obtain g where "devs1 = AList.update name g devs" by auto
      then have "fst ` set devs1 = insert name (fst ` set devs)" by (simp add: dom_update)
      then show ?thesis by (simp add: subset_insertI)
    qed
    show "name \<in> fst ` set devs1" if "name \<notin> set known"
    proof -
      from that devs1 obtain g where "devs1 = AList.update name g devs" by auto
      then have "fst ` set devs1 = insert name (fst ` set devs)" by (simp add: dom_update)
      then show ?thesis by simp
    qed
  qed
  from Cons.IH [OF run]
  have b: "fst ` set devs1 \<subseteq> fst ` set devs'"
    and b': "{n \<in> fst ` set ds. n \<notin> set known} \<subseteq> fst ` set devs'" by simp_all
  show ?case
  proof
    fix n assume "n \<in> fst ` set devs \<union> {n \<in> fst ` set (x # ds). n \<notin> set known}"
    then consider "n \<in> fst ` set devs" | "n = name" "n \<notin> set known"
      | "n \<in> {n \<in> fst ` set ds. n \<notin> set known}"
      unfolding x by auto
    then show "n \<in> fst ` set devs'"
    proof cases
      case 1
      with a b show ?thesis by (meson subsetD)
    next
      case 2
      with a' b show ?thesis by (meson subsetD)
    next
      case 3
      with b' show ?thesis by (meson subsetD)
    qed
  qed
qed

lemma merge_devices_new:
  "map_of ds name = None \<Longrightarrow> map_of gs name = Some g \<Longrightarrow>
     map_of (merge_devices gs ds) name = Some (Generated g)"
proof (induction gs arbitrary: ds)
  case Nil
  then show ?case by simp
next
  case (Cons x gs)
  obtain n v where x: "x = (n, v)" by (cases x)
  show ?case
  proof (cases "n = name")
    case True
    with Cons.prems x have "v = g" by simp
    with True Cons.prems(1) have "map_of (ds @ [(n, Generated v)]) name = Some (Generated g)"
      by (simp add: map_add_def)
    then have "map_of (merge_devices gs (ds @ [(n, Generated v)])) name = Some (Generated g)"
      by (rule merge_devices_keeps)
    with True Cons.prems(1) x show ?thesis by simp
  next
    case False
    with Cons.prems x have g: "map_of gs name = Some g" by simp
    from False Cons.prems(1)
    have "map_of (if map_of ds n = None then ds @ [(n, Generated v)] else ds) name = None"
      by (simp add: map_add_def)
    from Cons.IH [OF this g] show ?thesis unfolding x by simp
  qed
qed

lemma merge_topology_new:
  assumes "map_of topo name = None" and "map_of gen name = Some ifs" and "distinct (map fst gen)"
    and "merge_topology blank gen topo = Inr out"
  shows "map_of out name = Some \<lparr>entry_interfaces = Some ifs, entry_other = blank\<rparr>"
  using assms
proof (induction gen arbitrary: topo)
  case Nil
  then show ?case by simp
next
  case (Cons x gen)
  obtain n ifs' where x: "x = (n, ifs')" by (cases x)
  from Cons.prems(3) x have dist: "distinct (map fst gen)" and n: "n \<notin> fst ` set gen" by auto
  show ?case
  proof (cases "n = name")
    case True
    with Cons.prems(2) x have ifs: "ifs' = ifs" by simp
    let ?e = "\<lparr>entry_interfaces = Some ifs, entry_other = blank\<rparr>"
    from True Cons.prems(1,4) x ifs have run: "merge_topology blank gen (topo @ [(name, ?e)]) = Inr out"
      by simp
    from Cons.prems(1) have e: "map_of (topo @ [(name, ?e)]) name = Some ?e"
      by (simp add: map_add_def)
    from n True have "map_of gen name = None" by (simp add: map_of_eq_None_iff)
    with merge_topology_entry [OF e dist run] show ?thesis by simp
  next
    case False
    with Cons.prems(2) x have g: "map_of gen name = Some ifs" by simp
    from Cons.prems(4) x obtain topo' where run: "merge_topology blank gen topo' = Inr out"
      and topo': "topo' = topo @ [(n, \<lparr>entry_interfaces = Some ifs', entry_other = blank\<rparr>)] \<or>
          (\<exists>e'. topo' = AList.update n e' topo)"
      by (auto split: option.splits)
    from topo' False Cons.prems(1) have "map_of topo' name = None"
      by (auto simp: update_conv' map_add_def)
    from Cons.IH [OF this g dist run] show ?thesis .
  qed
qed

lemma interface_dict_entries:
  "(k, v) \<in> set (interface_dict ls d) \<Longrightarrow> \<exists>i. (k, i) \<in> set (interfaces d) \<and> v = interface_entry ls i"
proof -
  have "(k, v) \<in> set (fold (\<lambda>(name, i). AList.update name (interface_entry ls i)) xs acc) \<Longrightarrow>
      (k, v) \<in> set acc \<or> (\<exists>i. (k, i) \<in> set xs \<and> v = interface_entry ls i)"
    for xs and acc :: "(string \<times> yaml_interface) list"
  proof (induction xs arbitrary: acc)
    case Nil
    then show ?case by simp
  next
    case (Cons x xs)
    obtain n i where x: "x = (n, i)" by (cases x)
    from Cons.prems x have "(k, v) \<in> set (fold (\<lambda>(name, i). AList.update name (interface_entry ls i)) xs
        (AList.update n (interface_entry ls i) acc))" by simp
    from Cons.IH [OF this] show ?case unfolding x by (auto dest!: set_update_subset)
  qed
  from this [of "interfaces d" "[]"] show "(k, v) \<in> set (interface_dict ls d) \<Longrightarrow>
      \<exists>i. (k, i) \<in> set (interfaces d) \<and> v = interface_entry ls i"
    by (simp add: interface_dict_def)
qed

lemma interface_dict_covers:
  "fst ` set (interfaces d) \<subseteq> fst ` set (interface_dict ls d)"
proof -
  have "fst ` set acc \<union> fst ` set xs
      \<subseteq> fst ` set (fold (\<lambda>(name, i). AList.update name (interface_entry ls i)) xs acc)"
    for xs and acc :: "(string \<times> yaml_interface) list"
  proof (induction xs arbitrary: acc)
    case Nil
    then show ?case by simp
  next
    case (Cons x xs)
    obtain n i where x: "x = (n, i)" by (cases x)
    from Cons.IH [of "AList.update n (interface_entry ls i) acc"]
    show ?case by (auto simp: x dom_update)
  qed
  from this [of "[]" "interfaces d"] show ?thesis by (simp add: interface_dict_def)
qed

lemma interface_dict_lookup:
  assumes "distinct (map fst (interfaces d))" and "(k, i) \<in> set (interfaces d)"
  shows "(\<exists>v. map_of (interface_dict ls d) k = Some v) \<and>
         (\<forall>v. (k, v) \<in> set (interface_dict ls d) \<longrightarrow> v = interface_entry ls i)"
proof
  from assms(2) have "k \<in> fst ` set (interfaces d)" by force
  with interface_dict_covers [of d ls] have "k \<in> fst ` set (interface_dict ls d)" by blast
  then show "\<exists>v. map_of (interface_dict ls d) k = Some v"
    by (cases "map_of (interface_dict ls d) k") (simp_all add: map_of_eq_None_iff)
  show "\<forall>v. (k, v) \<in> set (interface_dict ls d) \<longrightarrow> v = interface_entry ls i"
  proof (intro allI impI)
    fix v assume "(k, v) \<in> set (interface_dict ls d)"
    from interface_dict_entries [OF this] obtain i' where "(k, i') \<in> set (interfaces d)"
      and v: "v = interface_entry ls i'" by blast
    with assms have "i' = i" by (auto dest: eq_key_imp_eq_value)
    with v show "v = interface_entry ls i" by simp
  qed
qed

lemma interface_entry_lookup:
  "(key, v) \<in> set (interface_entry ls i) \<Longrightarrow> map_of (interface_entry ls i) key = Some v"
  by (rule map_of_is_SomeI) (auto simp: interface_entry_def split: option.splits)

lemma create_yaml_dict_parts:
  assumes "create_yaml_dict credential_dict blank tb testbed_yaml = Inr out"
  shows "\<exists>devs gen.
           build_yaml_dict credential_dict (links tb) (map fst (yaml_devices testbed_yaml))
             (devices tb) ([], [], None) = Inr (devs, gen) \<and>
           yaml_devices out = merge_devices devs (yaml_devices testbed_yaml) \<and>
           (case yaml_topology testbed_yaml of
              None \<Rightarrow> yaml_topology out = Some (map (\<lambda>(name, ifs).
                        (name, \<lparr>entry_interfaces = Some ifs, entry_other = blank\<rparr>)) gen)
            | Some old \<Rightarrow> \<exists>topology. merge_topology blank gen old = Inr topology \<and>
                        yaml_topology out = Some topology)"
  using assms
  by (auto simp: create_yaml_dict_def Let_def split: sum.splits option.splits)

lemma create_yaml_dict_device:
  assumes "create_yaml_dict credential_dict blank tb testbed_yaml = Inr out"
    and "distinct (map fst (devices tb))" and "(name, d) \<in> set (devices tb)"
    and "map_of (yaml_devices testbed_yaml) name = None"
  shows "\<exists>g. map_of (yaml_devices out) name = Some (Generated g) \<and> yaml_type g = device_type d \<and>
              yaml_os g = device_os d \<and> yaml_credentials g = credential_dict"
proof -
  from create_yaml_dict_parts [OF assms(1)] obtain devs gen where
    build: "build_yaml_dict credential_dict (links tb) (map fst (yaml_devices testbed_yaml))
      (devices tb) ([], [], None) = Inr (devs, gen)"
    and out: "yaml_devices out = merge_devices devs (yaml_devices testbed_yaml)"
    by blast
  from assms(4) have "name \<notin> set (map fst (yaml_devices testbed_yaml))"
    by (simp add: map_of_eq_None_iff)
  moreover from assms(3) have "name \<in> fst ` set (devices tb)" by force
  ultimately have "name \<in> {n \<in> fst ` set (devices tb). n \<notin> set (map fst (yaml_devices testbed_yaml))}"
    by simp
  with build_yaml_dict_device_keys [OF build] have "name \<in> fst ` set devs" by (meson UnCI subsetD)
  then obtain g where g: "map_of devs name = Some g"
    by (cases "map_of devs name") (simp_all add: map_of_eq_None_iff)
  then have "(name, g) \<in> set devs" by (rule map_of_SomeD)
  from build_yaml_dict_devices [OF build this] obtain d' where "(name, d') \<in> set (devices tb)"
    and props: "yaml_type g = device_type d'" "yaml_os g = device_os d'"
      "yaml_credentials g = credential_dict"
    by auto
  with assms(2,3) have "d' = d" by (auto dest: eq_key_imp_eq_value)
  moreover from assms(4) g have "map_of (merge_devices devs (yaml_devices testbed_yaml)) name = Some (Generated g)"
    by (rule merge_devices_new)
  ultimately show ?thesis using props out by auto
qed

lemma create_yaml_dict_interface:
  assumes "create_yaml_dict credential_dict blank tb testbed_yaml = Inr out"
    and "distinct (map fst (devices tb))" and "(name, d) \<in> set (devices tb)"
    and "distinct (map fst (interfaces d))" and "(k, i) \<in> set (interfaces d)"
  shows "yaml_interface_entry out name k = Some (interface_entry (links tb) i)"
proof -
  from create_yaml_dict_parts [OF assms(1)] obtain devs gen where
    build: "build_yaml_dict credential_dict (links tb) (map fst (yaml_devices testbed_yaml))
      (devices tb) ([], [], None) = Inr (devs, gen)"
    and topo: "case yaml_topology testbed_yaml of
              None \<Rightarrow> yaml_topology out = Some (map (\<lambda>(name, ifs).
                        (name, \<lparr>entry_interfaces = Some ifs, entry_other = blank\<rparr>)) gen)
            | Some old \<Rightarrow> \<exists>topology. merge_topology blank gen old = Inr topology \<and>
                        yaml_topology out = Some topology"
    by blast
  from build_yaml_dict_topology [OF build, of "devices tb"]
  have dist: "distinct (map fst gen)"
    and gen: "\<forall>(n, ifs) \<in> set gen. \<exists>d. (n, d) \<in> set (devices tb) \<and> ifs = interface_dict (links tb) d"
    by auto
  from assms(3) have "name \<in> fst ` set (devices tb)" by force
  with build_yaml_dict_keys [OF build] have "name \<in> fst ` set gen" by (meson UnCI subsetD)
  then obtain ifs where ifs: "map_of gen name = Some ifs"
    by (cases "map_of gen name") (simp_all add: map_of_eq_None_iff)
  then have "(name, ifs) \<in> set gen" by (rule map_of_SomeD)
  with gen obtain d' where "(name, d') \<in> set (devices tb)" and "ifs = interface_dict (links tb) d'"
    by auto
  with assms(2,3) have ifs_d: "ifs = interface_dict (links tb) d" by (auto dest: eq_key_imp_eq_value)
  note lookup = interface_dict_lookup [OF assms(4,5), of "links tb", folded ifs_d]
  from lookup [THEN conjunct1] obtain v where v: "map_of ifs k = Some v" ..
  from lookup [THEN conjunct2]
  have only: "v = interface_entry (links tb) i" if "(k, v) \<in> set ifs" for v
    using that by simp
  from v have "(k, v) \<in> set ifs" by (rule map_of_SomeD)
  with only v have new: "map_of ifs k = Some (interface_entry (links tb) i)" by simp
  show ?thesis
  proof (cases "yaml_topology testbed_yaml")
    case None
    with topo have "yaml_topology out = Some (map (\<lambda>(name, ifs).
        (name, \<lparr>entry_interfaces = Some ifs, entry_other = blank\<rparr>)) gen)" by simp
    moreover have "map_of (map (\<lambda>(name, ifs).
        (name, \<lparr>entry_interfaces = Some ifs, entry_other = blank\<rparr>)) gen) name
        = Some \<lparr>entry_interfaces = Some ifs, entry_other = blank\<rparr>"
      using ifs by (simp add: map_of_map)
    ultimately show ?thesis using new by (simp add: yaml_interface_entry_def)
  next
    case (Some old)
    with topo obtain topology where merge: "merge_topology blank gen old = Inr topology"
      and out: "yaml_topology out = Some topology" by auto
    show ?thesis
    proof (cases "map_of old name")
      case None
      from merge_topology_new [OF None ifs dist merge] out new
      show ?thesis by (simp add: yaml_interface_entry_def)
    next
      case (Some e)
      from merge_topology_entry [OF Some dist merge] ifs obtain old_ifs where
        "map_of topology name = Some (e\<lparr>entry_interfaces := Some (dict_update old_ifs ifs)\<rparr>)"
        by auto
      moreover from v have "k \<in> fst ` set ifs" by (rule key_of_map_of)
      from dict_update_new [OF this, of old_ifs]
      obtain v' where "(k, v') \<in> set ifs" and "map_of (dict_update old_ifs ifs) k = Some v'"
        by (elim exE conjE)
      with only have "map_of (dict_update old_ifs ifs) k = Some (interface_entry (links tb) i)"
        by simp
      ultimately show ?thesis using out by (simp add: yaml_interface_entry_def)
    qed
  qed
qed

lemmas yaml_eval = create_yaml_dict_def example_graph_def example_linked_def example_finder_def
  interface_dict_def interface_entry_def dict_update_def write_yaml_connections_def
  yaml_interface_entry_def

text \<open>
  C8, as the code has it. In the result of \<open>create_yaml_dict\<close> every device entry of
  the input configuration is unchanged, and every topology entry of the input is still
  there with its other content unchanged; it is the same entry when the graph has no
  device of that name, and otherwise an interface entry under it is unchanged if the
  graph device has no interface of that name. What the merge adds: a graph device without
  a device entry in the input gets one, with its type, its os and the credentials; and
  every interface of a graph device has, in the topology entry of the device, an entry
  that holds the regenerated type, link and ipv4, which is the regenerated entry itself
  when the input has no entry for the interface. (The names of the devices and of the
  interfaces of a device are keys of dictionaries in the program, hence distinct.)
\<close>

theorem create_yaml_dict_merge:
  assumes "create_yaml_dict credential_dict blank tb testbed_yaml = Inr out"
  shows "(\<forall>name e. map_of (yaml_devices testbed_yaml) name = Some e \<longrightarrow>
            map_of (yaml_devices out) name = Some e) \<and>
         (\<forall>topo name e. yaml_topology testbed_yaml = Some topo \<and> map_of topo name = Some e \<longrightarrow>
            (\<exists>topo' e'. yaml_topology out = Some topo' \<and> map_of topo' name = Some e' \<and>
               entry_other e' = entry_other e \<and>
               (name \<notin> fst ` set (devices tb) \<longrightarrow> e' = e) \<and>
               (\<forall>old. entry_interfaces e = Some old \<longrightarrow>
                  (\<exists>new. entry_interfaces e' = Some new \<and>
                     (\<forall>k. (\<forall>d. (name, d) \<in> set (devices tb) \<longrightarrow> k \<notin> fst ` set (interfaces d)) \<longrightarrow>
                        map_of new k = map_of old k))))) \<and>
         (distinct (map fst (devices tb)) \<longrightarrow>
            (\<forall>(name, d) \<in> set (devices tb).
               (map_of (yaml_devices testbed_yaml) name = None \<longrightarrow>
                  (\<exists>g. map_of (yaml_devices out) name = Some (Generated g) \<and>
                     yaml_type g = device_type d \<and> yaml_os g = device_os d \<and>
                     yaml_credentials g = credential_dict)) \<and>
               (distinct (map fst (interfaces d)) \<longrightarrow>
                  (\<forall>(k, i) \<in> set (interfaces d).
                     \<exists>entry. yaml_interface_entry out name k = Some entry \<and>
                       (\<forall>(key, v) \<in> set (interface_entry (links tb) i). map_of entry key = Some v) \<and>
                       (yaml_interface_entry testbed_yaml name k = None \<longrightarrow>
                          entry = interface_entry (links tb) i)))))"
proof -
  from create_yaml_dict_parts [OF assms] obtain devs gen where
    build: "build_yaml_dict credential_dict (links tb) (map fst (yaml_devices testbed_yaml))
      (devices tb) ([], [], None) = Inr (devs, gen)"
    and devices: "yaml_devices out = merge_devices devs (yaml_devices testbed_yaml)"
    and topology: "case yaml_topology testbed_yaml of
              None \<Rightarrow> yaml_topology out = Some (map (\<lambda>(name, ifs).
                        (name, \<lparr>entry_interfaces = Some ifs, entry_other = blank\<rparr>)) gen)
            | Some old \<Rightarrow> \<exists>topology. merge_topology blank gen old = Inr topology \<and>
                        yaml_topology out = Some topology"
    by blast
  from build_yaml_dict_topology [OF build, of "devices tb"]
  have dist: "distinct (map fst gen)"
    and gen: "\<forall>(n, ifs) \<in> set gen. \<exists>d. (n, d) \<in> set (devices tb) \<and> ifs = interface_dict (links tb) d"
    by auto
  have part1: "\<forall>name e. map_of (yaml_devices testbed_yaml) name = Some e \<longrightarrow>
      map_of (yaml_devices out) name = Some e"
    by (simp add: devices merge_devices_keeps)
  have part2: "\<exists>topo' e'. yaml_topology out = Some topo' \<and> map_of topo' name = Some e' \<and>
       entry_other e' = entry_other e \<and>
       (name \<notin> fst ` set (devices tb) \<longrightarrow> e' = e) \<and>
       (\<forall>old. entry_interfaces e = Some old \<longrightarrow>
          (\<exists>new. entry_interfaces e' = Some new \<and>
             (\<forall>k. (\<forall>d. (name, d) \<in> set (devices tb) \<longrightarrow> k \<notin> fst ` set (interfaces d)) \<longrightarrow>
                map_of new k = map_of old k)))"
    if topo: "yaml_topology testbed_yaml = Some topo" and e: "map_of topo name = Some e"
    for topo name e
  proof -
    from topology topo obtain topo' where
      merge: "merge_topology blank gen topo = Inr topo'" and out: "yaml_topology out = Some topo'"
      by auto
    show ?thesis
    proof (cases "map_of gen name")
      case None
      with merge_topology_entry [OF e dist merge] have "map_of topo' name = Some e" by simp
      with out show ?thesis by auto
    next
      case (Some ifs)
      with merge_topology_entry [OF e dist merge] obtain old where
        old: "entry_interfaces e = Some old"
        and e': "map_of topo' name = Some (e\<lparr>entry_interfaces := Some (dict_update old ifs)\<rparr>)"
        by auto
      from Some have "(name, ifs) \<in> set gen" by (rule map_of_SomeD)
      with gen obtain d where d: "(name, d) \<in> set (devices tb)"
        and ifs: "ifs = interface_dict (links tb) d" by auto
      have frame: "map_of (dict_update old ifs) k = map_of old k"
        if "\<forall>d. (name, d) \<in> set (devices tb) \<longrightarrow> k \<notin> fst ` set (interfaces d)" for k
      proof -
        from that d have "k \<notin> fst ` set (interfaces d)" by simp
        with interface_dict_keys [of "links tb" d] ifs have "k \<notin> fst ` set ifs" by auto
        then show ?thesis by (rule dict_update_other)
      qed
      from d have "name \<in> fst ` set (devices tb)" by force
      with out e' old frame show ?thesis by auto
    qed
  qed
  have part3: "(map_of (yaml_devices testbed_yaml) name = None \<longrightarrow>
        (\<exists>g. map_of (yaml_devices out) name = Some (Generated g) \<and>
           yaml_type g = device_type d \<and> yaml_os g = device_os d \<and>
           yaml_credentials g = credential_dict)) \<and>
      (distinct (map fst (interfaces d)) \<longrightarrow>
        (\<forall>(k, i) \<in> set (interfaces d).
           \<exists>entry. yaml_interface_entry out name k = Some entry \<and>
             (\<forall>(key, v) \<in> set (interface_entry (links tb) i). map_of entry key = Some v) \<and>
             (yaml_interface_entry testbed_yaml name k = None \<longrightarrow>
                entry = interface_entry (links tb) i)))"
    if dd: "distinct (map fst (devices tb))" and d: "(name, d) \<in> set (devices tb)" for name d
  proof (intro conjI impI)
    assume "map_of (yaml_devices testbed_yaml) name = None"
    with assms dd d show "\<exists>g. map_of (yaml_devices out) name = Some (Generated g) \<and>
           yaml_type g = device_type d \<and> yaml_os g = device_os d \<and>
           yaml_credentials g = credential_dict"
      by (rule create_yaml_dict_device)
  next
    assume di: "distinct (map fst (interfaces d))"
    show "\<forall>(k, i) \<in> set (interfaces d).
           \<exists>entry. yaml_interface_entry out name k = Some entry \<and>
             (\<forall>(key, v) \<in> set (interface_entry (links tb) i). map_of entry key = Some v) \<and>
             (yaml_interface_entry testbed_yaml name k = None \<longrightarrow>
                entry = interface_entry (links tb) i)"
    proof (intro ballI, clarify)
      fix k i assume ki: "(k, i) \<in> set (interfaces d)"
      from create_yaml_dict_interface [OF assms dd d di ki]
      have "yaml_interface_entry out name k = Some (interface_entry (links tb) i)" .
      moreover have "\<forall>(key, v) \<in> set (interface_entry (links tb) i).
          map_of (interface_entry (links tb) i) key = Some v"
        by (auto intro: interface_entry_lookup)
      ultimately show "\<exists>entry. yaml_interface_entry out name k = Some entry \<and>
             (\<forall>(key, v) \<in> set (interface_entry (links tb) i). map_of entry key = Some v) \<and>
             (yaml_interface_entry testbed_yaml name k = None \<longrightarrow>
                entry = interface_entry (links tb) i)"
        by blast
    qed
  qed
  show ?thesis
  proof (intro conjI)
    show "\<forall>name e. map_of (yaml_devices testbed_yaml) name = Some e \<longrightarrow>
        map_of (yaml_devices out) name = Some e"
      by (rule part1)
    show "\<forall>topo name e. yaml_topology testbed_yaml = Some topo \<and> map_of topo name = Some e \<longrightarrow>
            (\<exists>topo' e'. yaml_topology out = Some topo' \<and> map_of topo' name = Some e' \<and>
               entry_other e' = entry_other e \<and>
               (name \<notin> fst ` set (devices tb) \<longrightarrow> e' = e) \<and>
               (\<forall>old. entry_interfaces e = Some old \<longrightarrow>
                  (\<exists>new. entry_interfaces e' = Some new \<and>
                     (\<forall>k. (\<forall>d. (name, d) \<in> set (devices tb) \<longrightarrow> k \<notin> fst ` set (interfaces d)) \<longrightarrow>
                        map_of new k = map_of old k))))"
    proof (intro allI impI, elim conjE)
      fix topo name e
      assume "yaml_topology testbed_yaml = Some topo" and "map_of topo name = Some e"
      then show "\<exists>topo' e'. yaml_topology out = Some topo' \<and> map_of topo' name = Some e' \<and>
               entry_other e' = entry_other e \<and>
               (name \<notin> fst ` set (devices tb) \<longrightarrow> e' = e) \<and>
               (\<forall>old. entry_interfaces e = Some old \<longrightarrow>
                  (\<exists>new. entry_interfaces e' = Some new \<and>
                     (\<forall>k. (\<forall>d. (name, d) \<in> set (devices tb) \<longrightarrow> k \<notin> fst ` set (interfaces d)) \<longrightarrow>
                        map_of new k = map_of old k)))"
        by (rule part2)
    qed
    show "distinct (map fst (devices tb)) \<longrightarrow>
            (\<forall>(name, d) \<in> set (devices tb).
               (map_of (yaml_devices testbed_yaml) name = None \<longrightarrow>
                  (\<exists>g. map_of (yaml_devices out) name = Some (Generated g) \<and>
                     yaml_type g = device_type d \<and> yaml_os g = device_os d \<and>
                     yaml_credentials g = credential_dict)) \<and>
               (distinct (map fst (interfaces d)) \<longrightarrow>
                  (\<forall>(k, i) \<in> set (interfaces d).
                     \<exists>entry. yaml_interface_entry out name k = Some entry \<and>
                       (\<forall>(key, v) \<in> set (interface_entry (links tb) i). map_of entry key = Some v) \<and>
                       (yaml_interface_entry testbed_yaml name k = None \<longrightarrow>
                          entry = interface_entry (links tb) i))))"
    proof (intro impI ballI, clarify)
      fix name d
      assume "distinct (map fst (devices tb))" and "(name, d) \<in> set (devices tb)"
      then show "(map_of (yaml_devices testbed_yaml) name = None \<longrightarrow>
                  (\<exists>g. map_of (yaml_devices out) name = Some (Generated g) \<and>
                     yaml_type g = device_type d \<and> yaml_os g = device_os d \<and>
                     yaml_credentials g = credential_dict)) \<and>
               (distinct (map fst (interfaces d)) \<longrightarrow>
                  (\<forall>(k, i) \<in> set (interfaces d).
                     \<exists>entry. yaml_interface_entry out name k = Some entry \<and>
                       (\<forall>(key, v) \<in> set (interface_entry (links tb) i). map_of entry key = Some v) \<and>
                       (yaml_interface_entry testbed_yaml name k = None \<longrightarrow>
                          entry = interface_entry (links tb) i)))"
        by (rule part3)
    qed
  qed
qed

text \<open>
  The input has the device A with the interfaces Gi1 and Gi9; in the graph A's Gi1 and
  Gi2 of the new device B are the members of Link_0. The device entry of A and the entry
  of Gi9 are kept, B gets a device entry, the entry of A's Gi1 holds the link, and the
  entry of B's Gi2 is the regenerated one.
\<close>

theorem create_yaml_dict_merge_witness:
  "case create_yaml_dict [] () example_graph
          \<lparr>yaml_devices = [(''A'', Existing ())],
           yaml_topology = Some [(''A'',
             \<lparr>entry_interfaces = Some [(''Gi1'', [(''type'', ''gi'')]),
                                       (''Gi9'', [(''type'', ''gi''), (''alias'', ''spare'')])],
              entry_other = ()\<rparr>)]\<rparr> of
     Inl e \<Rightarrow> False
   | Inr out \<Rightarrow>
       map_of (yaml_devices out) ''A'' = Some (Existing ()) \<and>
       (\<exists>topo' e' new. yaml_topology out = Some topo' \<and> map_of topo' ''A'' = Some e' \<and>
          entry_interfaces e' = Some new \<and>
          map_of new ''Gi9'' = Some [(''type'', ''gi''), (''alias'', ''spare'')]) \<and>
       (\<exists>g. map_of (yaml_devices out) ''B'' = Some (Generated g) \<and>
          yaml_type g = ''router'' \<and> yaml_os g = Some ''ios'' \<and> yaml_credentials g = []) \<and>
       (\<exists>entry. yaml_interface_entry out ''A'' ''Gi1'' = Some entry \<and>
          map_of entry ''type'' = Some ''gi'' \<and> map_of entry ''link'' = Some ''Link_0'') \<and>
       yaml_interface_entry out ''B'' ''Gi2'' = Some [(''type'', ''gi''), (''link'', ''Link_0'')]"
proof -
  let ?old = "[(''Gi1'', [(''type'', ''gi'')]), (''Gi9'', [(''type'', ''gi''), (''alias'', ''spare'')])]"
  let ?e = "\<lparr>entry_interfaces = Some ?old, entry_other = ()\<rparr>"
  let ?y = "\<lparr>yaml_devices = [(''A'', Existing ())], yaml_topology = Some [(''A'', ?e)]\<rparr>"
  let ?i = "\<lparr>interface_type = ''gi'', interface_link = Some 0, interface_ipv4 = None\<rparr>"
  obtain out where run: "create_yaml_dict [] () example_graph ?y = Inr out"
    by (simp add: yaml_eval)
  note merge = create_yaml_dict_merge [OF run]
  have dev: "map_of (yaml_devices ?y) ''A'' = Some (Existing ())" by simp
  with merge have dev': "map_of (yaml_devices out) ''A'' = Some (Existing ())" by blast
  have pre: "yaml_topology ?y = Some [(''A'', ?e)] \<and> map_of [(''A'', ?e)] ''A'' = Some ?e"
    by simp
  with merge obtain topo' e' where topo': "yaml_topology out = Some topo'"
    and e': "map_of topo' ''A'' = Some e'"
    and ifs: "\<forall>old. entry_interfaces ?e = Some old \<longrightarrow>
        (\<exists>new. entry_interfaces e' = Some new \<and>
           (\<forall>k. (\<forall>d. (''A'', d) \<in> set (devices example_graph) \<longrightarrow> k \<notin> fst ` set (interfaces d)) \<longrightarrow>
              map_of new k = map_of old k))"
    by blast
  have "entry_interfaces ?e = Some ?old" by simp
  with ifs obtain new where new: "entry_interfaces e' = Some new"
    and frame: "\<forall>k. (\<forall>d. (''A'', d) \<in> set (devices example_graph) \<longrightarrow> k \<notin> fst ` set (interfaces d)) \<longrightarrow>
        map_of new k = map_of ?old k"
    by blast
  have "\<forall>d. (''A'', d) \<in> set (devices example_graph) \<longrightarrow> ''Gi9'' \<notin> fst ` set (interfaces d)"
    by (simp add: example_graph_def example_linked_def)
  with frame have "map_of new ''Gi9'' = map_of ?old ''Gi9''" by blast
  then have gi9: "map_of new ''Gi9'' = Some [(''type'', ''gi''), (''alias'', ''spare'')]" by simp
  have dd: "distinct (map fst (devices example_graph))" by (simp add: example_graph_def)
  note effect = merge [THEN conjunct2, THEN conjunct2, THEN mp, OF dd]
  have a: "(''A'', example_linked ''Gi1'') \<in> set (devices example_graph)"
    and b: "(''B'', example_linked ''Gi2'') \<in> set (devices example_graph)"
    by (simp_all add: example_graph_def)
  note effect_a = effect [THEN bspec, OF a, unfolded prod.case]
  note effect_b = effect [THEN bspec, OF b, unfolded prod.case]
  have "map_of (yaml_devices ?y) ''B'' = None" by simp
  with effect_b [THEN conjunct1] obtain g where "map_of (yaml_devices out) ''B'' = Some (Generated g)"
    and "yaml_type g = device_type (example_linked ''Gi2'')"
    and "yaml_os g = device_os (example_linked ''Gi2'')" and "yaml_credentials g = []"
    by blast
  then have gen: "\<exists>g. map_of (yaml_devices out) ''B'' = Some (Generated g) \<and>
      yaml_type g = ''router'' \<and> yaml_os g = Some ''ios'' \<and> yaml_credentials g = []"
    by (simp add: example_linked_def example_finder_def)
  have da: "distinct (map fst (interfaces (example_linked ''Gi1'')))"
    and ia: "(''Gi1'', ?i) \<in> set (interfaces (example_linked ''Gi1''))"
    and db: "distinct (map fst (interfaces (example_linked ''Gi2'')))"
    and ib: "(''Gi2'', ?i) \<in> set (interfaces (example_linked ''Gi2''))"
    by (simp_all add: example_linked_def)
  from effect_a [THEN conjunct2, THEN mp, OF da, THEN bspec, OF ia, unfolded prod.case]
  obtain entry where entry: "yaml_interface_entry out ''A'' ''Gi1'' = Some entry"
    and carries: "\<forall>(key, v) \<in> set (interface_entry (links example_graph) ?i). map_of entry key = Some v"
    by (elim exE conjE)
  from carries have gi1: "map_of entry ''type'' = Some ''gi'' \<and> map_of entry ''link'' = Some ''Link_0''"
    by (simp add: interface_entry_def example_graph_def)
  from effect_b [THEN conjunct2, THEN mp, OF db, THEN bspec, OF ib, unfolded prod.case]
  obtain entry_b where "yaml_interface_entry out ''B'' ''Gi2'' = Some entry_b"
    and "yaml_interface_entry ?y ''B'' ''Gi2'' = None \<longrightarrow>
           entry_b = interface_entry (links example_graph) ?i"
    by (elim exE conjE)
  moreover have "yaml_interface_entry ?y ''B'' ''Gi2'' = None" by (simp add: yaml_interface_entry_def)
  ultimately have "yaml_interface_entry out ''B'' ''Gi2'' = Some (interface_entry (links example_graph) ?i)"
    by simp
  then have gi2: "yaml_interface_entry out ''B'' ''Gi2'' = Some [(''type'', ''gi''), (''link'', ''Link_0'')]"
    by (simp add: interface_entry_def example_graph_def)
  from dev' topo' e' new gi9 gen entry gi1 gi2 run show ?thesis by auto
qed

text \<open>
  C8, as the spec has it, fails: the entry of Gi1 under the topology device A, which has
  the type only in the input, holds the discovered link after the merge.
\<close>

theorem create_yaml_dict_changes_counterexample:
  "yaml_interface_entry
      \<lparr>yaml_devices = [(''A'', Existing ()), (''B'', Existing ())],
       yaml_topology = Some [(''A'',
         \<lparr>entry_interfaces = Some [(''Gi1'', [(''type'', ''gi'')])], entry_other = ()\<rparr>)]\<rparr>
      ''A'' ''Gi1'' = Some [(''type'', ''gi'')] \<and>
   (case create_yaml_dict [] () example_graph
      \<lparr>yaml_devices = [(''A'', Existing ()), (''B'', Existing ())],
       yaml_topology = Some [(''A'',
         \<lparr>entry_interfaces = Some [(''Gi1'', [(''type'', ''gi'')])], entry_other = ()\<rparr>)]\<rparr> of
      Inl e \<Rightarrow> False
    | Inr out \<Rightarrow> yaml_interface_entry out ''A'' ''Gi1'' = Some [(''type'', ''gi''), (''link'', ''Link_0'')])"
  by (simp add: yaml_eval)

section \<open>New devices and the variable ip\<close>

lemma proxy_connections_ip:
  "snd (proxy_connections proxy_set ips (conns, v)) = (if ips = [] then v else Some (last ips))"
proof -
  have "snd (fold (\<lambda>ip' (conns, _).
             (fold (\<lambda>p. AList.update (''ssh'' @ p)
                      \<lparr>protocol = Some ''ssh'', connection_ip = ip', proxy = Some (ProxyName p)\<rparr>)
                proxy_set conns,
              Some ip')) ips acc) = (if ips = [] then snd acc else Some (last ips))" for acc
    by (induction ips arbitrary: acc) (auto split: prod.splits)
  from this [of "(conns, v)"] show ?thesis by (simp add: proxy_connections_def)
qed

lemma add_interfaces_connections:
  "add_interfaces names d = Inr d' \<Longrightarrow> connections d' = connections d"
  by (induction names arbitrary: d) (auto simp: add_interface_def split: if_splits option.splits)

lemmas new_device_eval = write_new_device_def write_proxy_chain_def proxy_connections_def
  example_finder_def interface_filter_match_def add_interface_def lower_def lower_char_def
  is_digit_def newline_def Let_def

lemma write_proxy_chain_names:
  "write_proxy_chain f tb c ips = Inr (p, tb') \<Longrightarrow> map fst (devices tb') = map fst (devices tb)"
  by (auto simp: write_proxy_chain_def Let_def update_keys key_of_map_of
      split: option.splits proxy.splits if_splits prod.splits)

lemma write_new_device_names:
  "write_new_device ps n info tb v = Inr (dev, tb', v') \<Longrightarrow>
     map fst (devices tb') = map fst (devices tb)"
  by (auto simp: write_new_device_def Let_def
      split: option.splits sum.splits prod.splits if_splits dest: write_proxy_chain_names)

lemma write_new_device_unbound:
  assumes "ip info = []" and "snd (finder info) \<noteq> []"
  shows "\<exists>e. write_new_device proxy_set new_dev info tb None = Inl e"
proof -
  obtain conns v where pc: "proxy_connections proxy_set (ip info) ([], None) = (conns, v)"
    by (cases "proxy_connections proxy_set (ip info) ([], None)")
  with proxy_connections_ip [of proxy_set "ip info" "[]" None] assms(1) have "v = None" by simp
  with assms pc show ?thesis
    by (auto simp: write_new_device_def Let_def split: option.splits sum.splits prod.splits)
qed

lemma write_new_device_var:
  assumes "write_new_device proxy_set new_dev info tb v = Inr (dev, tb', v')"
  shows "v' = (if ip info = [] then v else Some (last (ip info)))"
proof -
  obtain conns w where pc: "proxy_connections proxy_set (ip info) ([], v) = (conns, w)"
    by (cases "proxy_connections proxy_set (ip info) ([], v)")
  with proxy_connections_ip [of proxy_set "ip info" "[]" v]
  have w: "w = (if ip info = [] then v else Some (last (ip info)))" by simp
  from assms pc have "v' = w"
    by (auto simp: write_new_device_def Let_def split: option.splits sum.splits prod.splits if_splits)
  with w show ?thesis by simp
qed

lemma write_new_device_last_ip:
  assumes "ip info \<noteq> []" and "snd (finder info) \<noteq> []"
    and "write_new_device proxy_set new_dev info tb v = Inr (dev, tb', v')"
  shows "map_option connection_ip (map_of (connections dev) ''finder_proxy'') = Some (last (ip info))"
proof -
  obtain conns w where pc: "proxy_connections proxy_set (ip info) ([], v) = (conns, w)"
    by (cases "proxy_connections proxy_set (ip info) ([], v)")
  with proxy_connections_ip [of proxy_set "ip info" "[]" v] assms(1)
  have w: "w = Some (last (ip info))" by simp
  from assms pc w obtain finder_proxy d0 where
    add: "add_interfaces (ports info) d0 = Inr dev"
    and d0: "connections d0 = AList.update ''finder_proxy''
        \<lparr>protocol = Some ''ssh'', connection_ip = last (ip info), proxy = Some finder_proxy\<rparr> conns"
    by (auto simp: write_new_device_def Let_def split: option.splits sum.splits prod.splits)
  from add_interfaces_connections [OF add] d0 show ?thesis by (simp add: update_conv')
qed

lemma write_devices_loop_unbound:
  assumes "\<forall>(n, i) \<in> set pre. n \<notin> fst ` set (devices tb) \<longrightarrow> ip i = []"
    and "new_dev \<notin> fst ` set (devices tb)" and "ip info = []" and "snd (finder info) \<noteq> []"
  shows "\<exists>e. write_devices_loop cfg shw ps (pre @ (new_dev, info) # rest) (tb, nd, None) = Inl e"
  using assms(1,2)
proof (induction pre arbitrary: tb nd)
  case Nil
  from Nil(2) have "map_of (devices tb) new_dev = None" by (simp add: map_of_eq_None_iff)
  moreover from write_new_device_unbound [OF assms(3,4)]
  obtain e where "write_new_device ps new_dev info tb None = Inl e" by blast
  ultimately show ?case by simp
next
  case (Cons x pre)
  obtain n i where x: "x = (n, i)" by (cases x)
  show ?case
  proof (cases "map_of (devices tb) n")
    case None
    then have "n \<notin> fst ` set (devices tb)" by (simp add: map_of_eq_None_iff)
    with Cons.prems(1) x have empty: "ip i = []" by auto
    show ?thesis
    proof (cases "write_new_device ps n i tb None")
      case (Inl e)
      with None x show ?thesis by simp
    next
      case (Inr r)
      then obtain dev tb1 v1 where r: "write_new_device ps n i tb None = Inr (dev, tb1, v1)"
        by (cases r) auto
      from write_new_device_var [OF r] empty have v1: "v1 = None" by simp
      from write_new_device_names [OF r] have names: "fst ` set (devices tb1) = fst ` set (devices tb)"
        by (metis set_map)
      from Cons.prems names have "\<forall>(n, i) \<in> set pre. n \<notin> fst ` set (devices tb1) \<longrightarrow> ip i = []"
        and "new_dev \<notin> fst ` set (devices tb1)" by auto
      from Cons.IH [OF this, of "AList.update n dev nd"] obtain e where
        "write_devices_loop cfg shw ps (pre @ (new_dev, info) # rest)
           (tb1, AList.update n dev nd, None) = Inl e" by blast
      with None x r v1 show ?thesis by simp
    qed
  next
    case (Some d)
    show ?thesis
    proof (cases "write_known_device cfg shw n i d")
      case (Inl e)
      with Some x show ?thesis by simp
    next
      case (Inr d')
      let ?tb = "tb\<lparr>devices := AList.update n d' (devices tb)\<rparr>"
      have "map fst (devices ?tb) = map fst (devices tb)"
        using Some by (simp add: update_keys key_of_map_of)
      then have names: "fst ` set (devices ?tb) = fst ` set (devices tb)" by (metis set_map)
      from Cons.prems names have "\<forall>(n, i) \<in> set pre. n \<notin> fst ` set (devices ?tb) \<longrightarrow> ip i = []"
        and "new_dev \<notin> fst ` set (devices ?tb)" by auto
      from Cons.IH [OF this, of nd] obtain e where
        "write_devices_loop cfg shw ps (pre @ (new_dev, info) # rest) (?tb, nd, None) = Inl e"
        by blast
      with Some x Inr show ?thesis by simp
    qed
  qed
qed

lemma write_devices_loop_keeps:
  assumes "write_devices_loop cfg shw ps dl (tb, nd, v) = Inr (tb', nd')" and "k \<notin> fst ` set dl"
  shows "map_of nd' k = map_of nd k"
  using assms
proof (induction dl arbitrary: tb nd v)
  case Nil
  then show ?case by simp
next
  case (Cons x dl)
  obtain n i where x: "x = (n, i)" by (cases x)
  from Cons.prems(2) x have kn: "k \<noteq> n" and k: "k \<notin> fst ` set dl" by auto
  show ?case
  proof (cases "map_of (devices tb) n")
    case None
    with Cons.prems(1) x obtain dev tb1 v1 where
      run: "write_devices_loop cfg shw ps dl (tb1, AList.update n dev nd, v1) = Inr (tb', nd')"
      by (auto split: sum.splits)
    from Cons.IH [OF run k] kn show ?thesis by (simp add: update_conv')
  next
    case (Some d)
    with Cons.prems(1) x obtain d' where
      run: "write_devices_loop cfg shw ps dl
        (tb\<lparr>devices := AList.update n d' (devices tb)\<rparr>, nd, v) = Inr (tb', nd')"
      by (auto split: sum.splits)
    from Cons.IH [OF run k] show ?thesis .
  qed
qed

lemma write_devices_loop_last_ip:
  assumes "write_devices_loop cfg shw ps dl (tb, nd, v) = Inr (tb', nd')"
    and "distinct (map fst dl)" and "(new_dev, info) \<in> set dl"
    and "new_dev \<notin> fst ` set (devices tb)" and "ip info \<noteq> []" and "snd (finder info) \<noteq> []"
  shows "\<exists>dev. map_of nd' new_dev = Some dev \<and>
           map_option connection_ip (map_of (connections dev) ''finder_proxy'') = Some (last (ip info))"
  using assms(1-4)
proof (induction dl arbitrary: tb nd v)
  case Nil
  then show ?case by simp
next
  case (Cons x dl)
  obtain n i where x: "x = (n, i)" by (cases x)
  from Cons.prems(2) x have dist: "distinct (map fst dl)" and n: "n \<notin> fst ` set dl" by auto
  show ?case
  proof (cases "(new_dev, info) = x")
    case True
    with x have eq: "n = new_dev" "i = info" by simp_all
    from Cons.prems(4) have "map_of (devices tb) new_dev = None" by (simp add: map_of_eq_None_iff)
    with Cons.prems(1) x eq obtain dev tb1 v1 where
      new: "write_new_device ps new_dev info tb v = Inr (dev, tb1, v1)"
      and run: "write_devices_loop cfg shw ps dl (tb1, AList.update new_dev dev nd, v1) = Inr (tb', nd')"
      by (auto split: sum.splits)
    from n eq have "new_dev \<notin> fst ` set dl" by simp
    from write_devices_loop_keeps [OF run this]
    have "map_of nd' new_dev = Some dev" by (simp add: update_conv')
    with write_new_device_last_ip [OF assms(5,6) new] show ?thesis by simp
  next
    case False
    with Cons.prems(3) have mem: "(new_dev, info) \<in> set dl" by simp
    show ?thesis
    proof (cases "map_of (devices tb) n")
      case None
      with Cons.prems(1) x obtain dev tb1 v1 where
        new: "write_new_device ps n i tb v = Inr (dev, tb1, v1)"
        and run: "write_devices_loop cfg shw ps dl (tb1, AList.update n dev nd, v1) = Inr (tb', nd')"
        by (auto split: sum.splits)
      from write_new_device_names [OF new] have "fst ` set (devices tb1) = fst ` set (devices tb)"
        by (metis set_map)
      with Cons.prems(4) have "new_dev \<notin> fst ` set (devices tb1)" by simp
      from Cons.IH [OF run dist mem this] show ?thesis .
    next
      case (Some d)
      with Cons.prems(1) x obtain d' where
        run: "write_devices_loop cfg shw ps dl
          (tb\<lparr>devices := AList.update n d' (devices tb)\<rparr>, nd, v) = Inr (tb', nd')"
        by (auto split: sum.splits)
      let ?tb = "tb\<lparr>devices := AList.update n d' (devices tb)\<rparr>"
      have "map fst (devices ?tb) = map fst (devices tb)"
        using Some by (simp add: update_keys key_of_map_of)
      then have "fst ` set (devices ?tb) = fst ` set (devices tb)" by (metis set_map)
      with Cons.prems(4) have "new_dev \<notin> fst ` set (devices ?tb)" by simp
      from Cons.IH [OF run dist mem this] show ?thesis .
    qed
  qed
qed

lemma add_interfaces_error:
  "add_interfaces names d = Inl e \<Longrightarrow> e = TypeError"
  by (induction names arbitrary: d) (auto split: if_splits option.splits)

lemma write_proxy_chain_error:
  "write_proxy_chain f tb c ips = Inl e \<Longrightarrow> e = KeyError \<or> e = IndexError"
  by (auto simp: write_proxy_chain_def Let_def
      split: option.splits proxy.splits if_splits prod.splits)

lemma write_new_device_unbound_only:
  assumes "write_new_device proxy_set new_dev info tb v = Inl UnboundLocalError"
  shows "v = None \<and> ip info = [] \<and> snd (finder info) \<noteq> []"
proof -
  obtain conns w where pc: "proxy_connections proxy_set (ip info) ([], v) = (conns, w)"
    by (cases "proxy_connections proxy_set (ip info) ([], v)")
  with proxy_connections_ip [of proxy_set "ip info" "[]" v]
  have w: "w = (if ip info = [] then v else Some (last (ip info)))" by simp
  from assms pc have "w = None \<and> snd (finder info) \<noteq> []"
    by (auto simp: write_new_device_def Let_def
        split: option.splits sum.splits prod.splits if_splits
        dest: add_interfaces_error write_proxy_chain_error)
  with w show ?thesis by (auto split: if_splits)
qed

lemma write_known_device_error:
  "write_known_device cfg shw n i d = Inl e \<Longrightarrow> e = ParserError \<or> e = TypeError"
  by (auto simp: write_known_device_def split: option.splits if_splits dest: add_interfaces_error)

lemma write_devices_loop_unbound_only:
  assumes "write_devices_loop cfg shw ps dl (tb, nd, v) = Inl UnboundLocalError"
  shows "v = None \<and>
         (\<exists>pre new_dev info rest. dl = pre @ (new_dev, info) # rest \<and>
            new_dev \<notin> fst ` set (devices tb) \<and> ip info = [] \<and> snd (finder info) \<noteq> [] \<and>
            (\<forall>(n, i) \<in> set pre. n \<notin> fst ` set (devices tb) \<longrightarrow> ip i = []))"
  using assms
proof (induction dl arbitrary: tb nd v)
  case Nil
  then show ?case by simp
next
  case (Cons x dl)
  obtain n i where x: "x = (n, i)" by (cases x)
  show ?case
  proof (cases "map_of (devices tb) n")
    case None
    then have fresh: "n \<notin> fst ` set (devices tb)" by (simp add: map_of_eq_None_iff)
    show ?thesis
    proof (cases "write_new_device ps n i tb v")
      case (Inl e)
      with Cons.prems None x have "write_new_device ps n i tb v = Inl UnboundLocalError" by simp
      from write_new_device_unbound_only [OF this]
      have "v = None" and "ip i = []" and "snd (finder i) \<noteq> []" by simp_all
      with fresh have "x # dl = [] @ (n, i) # dl \<and> n \<notin> fst ` set (devices tb) \<and> ip i = [] \<and>
          snd (finder i) \<noteq> [] \<and> (\<forall>(n, i) \<in> set []. n \<notin> fst ` set (devices tb) \<longrightarrow> ip i = [])"
        by (simp add: x)
      with \<open>v = None\<close> show ?thesis by blast
    next
      case (Inr r)
      then obtain dev tb1 v1 where r: "write_new_device ps n i tb v = Inr (dev, tb1, v1)"
        by (cases r) auto
      with Cons.prems None x have
        run: "write_devices_loop cfg shw ps dl (tb1, AList.update n dev nd, v1) = Inl UnboundLocalError"
        by simp
      from write_new_device_names [OF r] have names: "fst ` set (devices tb1) = fst ` set (devices tb)"
        by (metis set_map)
      from Cons.IH [OF run] names obtain pre new_dev info rest where v1: "v1 = None"
        and dl: "dl = pre @ (new_dev, info) # rest"
        and rec: "new_dev \<notin> fst ` set (devices tb)" "ip info = []" "snd (finder info) \<noteq> []"
        and pre: "\<forall>(n, i) \<in> set pre. n \<notin> fst ` set (devices tb) \<longrightarrow> ip i = []"
        by auto
      from write_new_device_var [OF r] v1 have v: "v = None" and empty: "ip i = []"
        by (auto split: if_splits)
      from dl pre empty have "x # dl = (x # pre) @ (new_dev, info) # rest"
        and "\<forall>(n, i) \<in> set (x # pre). n \<notin> fst ` set (devices tb) \<longrightarrow> ip i = []"
        by (simp_all add: x)
      with rec v show ?thesis by blast
    qed
  next
    case (Some d)
    then have known: "n \<in> fst ` set (devices tb)" by (rule key_of_map_of)
    show ?thesis
    proof (cases "write_known_device cfg shw n i d")
      case (Inl e)
      with Cons.prems Some x have "write_known_device cfg shw n i d = Inl UnboundLocalError" by simp
      from write_known_device_error [OF this] show ?thesis by simp
    next
      case (Inr d')
      let ?tb = "tb\<lparr>devices := AList.update n d' (devices tb)\<rparr>"
      from Cons.prems Some x Inr have
        run: "write_devices_loop cfg shw ps dl (?tb, nd, v) = Inl UnboundLocalError" by simp
      have "map fst (devices ?tb) = map fst (devices tb)"
        using Some by (simp add: update_keys key_of_map_of)
      then have names: "fst ` set (devices ?tb) = fst ` set (devices tb)" by (metis set_map)
      from Cons.IH [OF run] names obtain pre new_dev info rest where v: "v = None"
        and dl: "dl = pre @ (new_dev, info) # rest"
        and rec: "new_dev \<notin> fst ` set (devices tb)" "ip info = []" "snd (finder info) \<noteq> []"
        and pre: "\<forall>(n, i) \<in> set pre. n \<notin> fst ` set (devices tb) \<longrightarrow> ip i = []"
        by auto
      from dl pre known have "x # dl = (x # pre) @ (new_dev, info) # rest"
        and "\<forall>(n, i) \<in> set (x # pre). n \<notin> fst ` set (devices tb) \<longrightarrow> ip i = []"
        by (simp_all add: x)
      with rec v show ?thesis by blast
    qed
  qed
qed

text \<open>
  C10, as the code has it. The variable \<open>ip\<close> is bound by the address loop of a new
  device and stays bound for the rest of the call. A record with an empty
  management-address set and with finder addresses, for a device that is not in the
  testbed, makes the call of \<open>_write_devices_into_testbed\<close> raise instead of
  committing the device, provided every record before it in the device list that is
  instantiated as a new device has an empty management-address set, so that \<open>ip\<close>
  is unbound when the record is reached; the error of the unbound variable is raised in
  no other case. And when the call returns, a new device whose management-address set is
  not empty and which has finder addresses has, in its finder-proxy connection, the
  address that the loop processed last.
\<close>

theorem write_devices_finder_ip:
  "(\<forall>pre new_dev info rest.
      device_list = pre @ (new_dev, info) # rest \<and> new_dev \<notin> fst ` set (devices tb) \<and>
      ip info = [] \<and> snd (finder info) \<noteq> [] \<and>
      (\<forall>(n, i) \<in> set pre. n \<notin> fst ` set (devices tb) \<longrightarrow> ip i = []) \<longrightarrow>
      (\<exists>e. write_devices_into_testbed cfg show_interfaces proxy_set device_list tb = Inl e)) \<and>
   (write_devices_into_testbed cfg show_interfaces proxy_set device_list tb = Inl UnboundLocalError \<longrightarrow>
      (\<exists>pre new_dev info rest.
         device_list = pre @ (new_dev, info) # rest \<and> new_dev \<notin> fst ` set (devices tb) \<and>
         ip info = [] \<and> snd (finder info) \<noteq> [] \<and>
         (\<forall>(n, i) \<in> set pre. n \<notin> fst ` set (devices tb) \<longrightarrow> ip i = []))) \<and>
   (\<forall>new_dev info tb' new_devices.
      distinct (map fst device_list) \<and> (new_dev, info) \<in> set device_list \<and>
      new_dev \<notin> fst ` set (devices tb) \<and> ip info \<noteq> [] \<and> snd (finder info) \<noteq> [] \<and>
      write_devices_into_testbed cfg show_interfaces proxy_set device_list tb = Inr (tb', new_devices) \<longrightarrow>
      (\<exists>dev. map_of new_devices new_dev = Some dev \<and>
         map_option connection_ip (map_of (connections dev) ''finder_proxy'') = Some (last (ip info))))"
proof (intro conjI allI impI)
  fix pre new_dev info rest
  assume a: "device_list = pre @ (new_dev, info) # rest \<and> new_dev \<notin> fst ` set (devices tb) \<and>
      ip info = [] \<and> snd (finder info) \<noteq> [] \<and>
      (\<forall>(n, i) \<in> set pre. n \<notin> fst ` set (devices tb) \<longrightarrow> ip i = [])"
  then have "\<forall>(n, i) \<in> set pre. n \<notin> fst ` set (devices tb) \<longrightarrow> ip i = []"
    and "new_dev \<notin> fst ` set (devices tb)" and "ip info = []" and "snd (finder info) \<noteq> []"
    by simp_all
  from write_devices_loop_unbound [OF this, of cfg show_interfaces proxy_set rest "[]"] a
  show "\<exists>e. write_devices_into_testbed cfg show_interfaces proxy_set device_list tb = Inl e"
    by (simp add: write_devices_into_testbed_def)
next
  assume "write_devices_into_testbed cfg show_interfaces proxy_set device_list tb = Inl UnboundLocalError"
  then have "write_devices_loop cfg show_interfaces proxy_set device_list (tb, [], None)
      = Inl UnboundLocalError"
    by (simp add: write_devices_into_testbed_def)
  from write_devices_loop_unbound_only [OF this]
  show "\<exists>pre new_dev info rest.
         device_list = pre @ (new_dev, info) # rest \<and> new_dev \<notin> fst ` set (devices tb) \<and>
         ip info = [] \<and> snd (finder info) \<noteq> [] \<and>
         (\<forall>(n, i) \<in> set pre. n \<notin> fst ` set (devices tb) \<longrightarrow> ip i = [])"
    by simp
next
  fix new_dev info tb' new_devices
  assume a: "distinct (map fst device_list) \<and> (new_dev, info) \<in> set device_list \<and>
      new_dev \<notin> fst ` set (devices tb) \<and> ip info \<noteq> [] \<and> snd (finder info) \<noteq> [] \<and>
      write_devices_into_testbed cfg show_interfaces proxy_set device_list tb = Inr (tb', new_devices)"
  then have "write_devices_loop cfg show_interfaces proxy_set device_list (tb, [], None) = Inr (tb', new_devices)"
    and "distinct (map fst device_list)" and "(new_dev, info) \<in> set device_list"
    and "new_dev \<notin> fst ` set (devices tb)" and "ip info \<noteq> []" and "snd (finder info) \<noteq> []"
    by (simp_all add: write_devices_into_testbed_def)
  then show "\<exists>dev. map_of new_devices new_dev = Some dev \<and>
         map_option connection_ip (map_of (connections dev) ''finder_proxy'') = Some (last (ip info))"
    by (rule write_devices_loop_last_ip)
qed

text \<open>
  W has no address at all and is committed without a finder-proxy connection; Y after it
  has finder addresses only, and the call raises. X has two management addresses, and its
  finder-proxy connection has the second one.
\<close>

theorem write_devices_finder_ip_witness:
  "write_devices_into_testbed
      \<lparr>only_links = False, exclude_interfaces = '''', add_unconnected_interfaces = False\<rparr>
      (\<lambda>device. None) []
      [(''W'', \<lparr>ports = [''Gi0/1''], ip = [], os = None, finder = (''A'', [])\<rparr>),
       (''Y'', \<lparr>ports = [''Gi0/3''], ip = [], os = Some ''ios'', finder = (''A'', [''10.1.1.2''])\<rparr>)]
      \<lparr>devices = [(''A'', example_finder)], links = []\<rparr> = Inl UnboundLocalError \<and>
   (\<exists>pre new_dev info rest.
      [(''W'', \<lparr>ports = [''Gi0/1''], ip = [], os = None, finder = (''A'', [])\<rparr>),
       (''Y'', \<lparr>ports = [''Gi0/3''], ip = [], os = Some ''ios'', finder = (''A'', [''10.1.1.2''])\<rparr>)]
        = pre @ (new_dev, info) # rest \<and>
      ip info = [] \<and> snd (finder info) \<noteq> []) \<and>
   (case write_devices_into_testbed
          \<lparr>only_links = False, exclude_interfaces = '''', add_unconnected_interfaces = False\<rparr>
          (\<lambda>device. None) []
          [(''X'', \<lparr>ports = [''Gi0/2''], ip = [Some ''10.0.0.5'', Some ''10.0.0.6''], os = Some ''ios'',
                    finder = (''A'', [''10.1.1.1''])\<rparr>)]
          \<lparr>devices = [(''A'', example_finder)], links = []\<rparr> of
      Inl e \<Rightarrow> False
    | Inr (tb', new_devices) \<Rightarrow>
        (\<exists>dev. map_of new_devices ''X'' = Some dev \<and>
           map_option connection_ip (map_of (connections dev) ''finder_proxy'') = Some (Some ''10.0.0.6'')))"
proof -
  let ?cfg = "\<lparr>only_links = False, exclude_interfaces = '''', add_unconnected_interfaces = False\<rparr>"
  let ?tb = "\<lparr>devices = [(''A'', example_finder)], links = []\<rparr>"
  let ?w = "\<lparr>ports = [''Gi0/1''], ip = [], os = None, finder = (''A'', [])\<rparr>"
  let ?y = "\<lparr>ports = [''Gi0/3''], ip = [], os = Some ''ios'', finder = (''A'', [''10.1.1.2''])\<rparr>"
  let ?x = "\<lparr>ports = [''Gi0/2''], ip = [Some ''10.0.0.5'', Some ''10.0.0.6''], os = Some ''ios'',
             finder = (''A'', [''10.1.1.1''])\<rparr>"
  have "[(''W'', ?w), (''Y'', ?y)] = [(''W'', ?w)] @ (''Y'', ?y) # [] \<and>
      ''Y'' \<notin> fst ` set (devices ?tb) \<and> ip ?y = [] \<and> snd (finder ?y) \<noteq> [] \<and>
      (\<forall>(n, i) \<in> set [(''W'', ?w)]. n \<notin> fst ` set (devices ?tb) \<longrightarrow> ip i = [])"
    by simp
  with write_devices_finder_ip [of "[(''W'', ?w), (''Y'', ?y)]" ?tb ?cfg "\<lambda>device. None" "[]"]
  obtain e where "write_devices_into_testbed ?cfg (\<lambda>device. None) [] [(''W'', ?w), (''Y'', ?y)] ?tb = Inl e"
    by blast
  moreover have "\<forall>e. write_devices_into_testbed ?cfg (\<lambda>device. None) [] [(''W'', ?w), (''Y'', ?y)] ?tb = Inl e
      \<longrightarrow> e = UnboundLocalError"
    by (simp add: write_devices_into_testbed_def new_device_eval)
  ultimately have first: "write_devices_into_testbed ?cfg (\<lambda>device. None) [] [(''W'', ?w), (''Y'', ?y)] ?tb
      = Inl UnboundLocalError"
    by blast
  with write_devices_finder_ip [of "[(''W'', ?w), (''Y'', ?y)]" ?tb ?cfg "\<lambda>device. None" "[]"]
  have only: "\<exists>pre new_dev info rest. [(''W'', ?w), (''Y'', ?y)] = pre @ (new_dev, info) # rest \<and>
      ip info = [] \<and> snd (finder info) \<noteq> []"
    by blast
  obtain tb' new_devices where
    run: "write_devices_into_testbed ?cfg (\<lambda>device. None) [] [(''X'', ?x)] ?tb = Inr (tb', new_devices)"
    by (simp add: write_devices_into_testbed_def new_device_eval)
  have "distinct (map fst [(''X'', ?x)]) \<and> (''X'', ?x) \<in> set [(''X'', ?x)] \<and>
      ''X'' \<notin> fst ` set (devices ?tb) \<and> ip ?x \<noteq> [] \<and> snd (finder ?x) \<noteq> []"
    by simp
  with write_devices_finder_ip [of "[(''X'', ?x)]" ?tb ?cfg "\<lambda>device. None" "[]"] run
  have "\<exists>dev. map_of new_devices ''X'' = Some dev \<and>
      map_option connection_ip (map_of (connections dev) ''finder_proxy'') = Some (last (ip ?x))"
    by blast
  then have "\<exists>dev. map_of new_devices ''X'' = Some dev \<and>
      map_option connection_ip (map_of (connections dev) ''finder_proxy'') = Some (Some ''10.0.0.6'')"
    by simp
  with first only run show ?thesis by simp
qed

text \<open>
  C10, as the spec has it, fails. Y has no management address and has finder addresses,
  and X before it has the management address 10.0.0.5: \<open>ip\<close> is still bound to it
  when Y is instantiated, no error is raised, and Y is committed with the address of X in
  its finder-proxy connection.
\<close>

theorem stale_ip_counterexample:
  "case write_devices_into_testbed
          \<lparr>only_links = False, exclude_interfaces = '''', add_unconnected_interfaces = False\<rparr>
          (\<lambda>device. None) []
          [(''X'', \<lparr>ports = [''Gi0/2''], ip = [Some ''10.0.0.5''], os = Some ''ios'',
                    finder = (''A'', [''10.1.1.1''])\<rparr>),
           (''Y'', \<lparr>ports = [''Gi0/3''], ip = [], os = Some ''ios'',
                    finder = (''A'', [''10.1.1.2''])\<rparr>)]
          \<lparr>devices = [(''A'', example_finder)], links = []\<rparr> of
     Inl e \<Rightarrow> False
   | Inr (tb, new_devices) \<Rightarrow>
       map fst new_devices = [''X'', ''Y''] \<and>
       map_option (\<lambda>dev. map_option connection_ip (map_of (connections dev) ''finder_proxy''))
         (map_of new_devices ''Y'') = Some (Some (Some ''10.0.0.5''))"
  by (simp add: write_devices_into_testbed_def new_device_eval)

section \<open>Links-only mode\<close>

lemmas discovery_eval = discover_def discovery_round_def process_neigbor_data_def
  get_device_connections_def lldp_verdict_def cdp_verdict_def cdp_dest_host_def
  lldp_ip_address_def
  add_to_device_list_def add_to_connection_dict_def filter_name_def host_char_def word_char_def
  is_upper_def is_lower_def get_os_def write_devices_into_testbed_def
  write_known_device_def write_interface_connections_def get_interface_def new_link_def
  connect_interface_def string_of_nat.simps set_add_def set_union_def

text \<open>
  In links-only mode the CDP processor keeps an entry only under a name of the testbed;
  the LLDP processor keeps it under the normalized form of a name of the testbed.
\<close>

lemma cdp_verdict_only_links:
  assumes "only_links cfg"
    and "cdp_verdict cfg parse nets names connection = Inr (Keep h p i ia ma o')"
  shows "h \<in> set names"
  using assms
  by (auto simp: cdp_verdict_def Let_def split: option.splits if_splits sum.splits)

lemma lldp_verdict_only_links:
  assumes "only_links cfg"
    and "lldp_verdict cfg parse nets names interface dest_port neighbors = Inr (Keep h p i ia ma o')"
  shows "\<exists>raw \<in> set names. h = filter_name raw"
  using assms
  by (cases neighbors)
    (auto simp: lldp_verdict_def Let_def split: option.splits if_splits sum.splits)

text \<open>
  C1 at a failing input. The run is in links-only mode and the testbed has the devices A
  and sw1.lab. A reports the LLDP neighbor sw1.lab: the name as reported is a device of the
  testbed, so the entry is kept; it is normalized afterwards, to sw1, which is not a
  device of the testbed, and the device sw1 is created and added to the graph.
\<close>

theorem only_links_lldp_adds_device:
  "case discover
          \<lparr>env_config = \<lparr>only_links = True, exclude_interfaces = '''',
                          add_unconnected_interfaces = False\<rparr>,
           env_parse = parse_example, env_networks = [],
           env_neighbor_info = (\<lambda>device.
             if device = ''A''
             then \<lparr>cdp = [], lldp = Some \<lparr>total_entries = 1, lldp_interfaces =
                    [(''Gi0/1'', [(''Gi0/2'', [(''sw1.lab'',
                        \<lparr>management_address = Some ''10.0.0.5'', management_address_v4 = None,
                         system_description = ''Cisco IOS Software''\<rparr>)])])]\<rparr>\<rparr>
             else \<lparr>cdp = [], lldp = None\<rparr>),
           env_show_interfaces = (\<lambda>device. None), env_proxy_set = []\<rparr>
          1 \<lparr>devices = [(''A'', example_finder), (''sw1.lab'', example_finder)], links = []\<rparr> of
     Some (Inr (s, rounds)) \<Rightarrow>
       map fst (devices (state_testbed s)) = [''A'', ''sw1.lab'', ''sw1''] \<and>
       links (state_testbed s) =
         [\<lparr>link_name = ''Link_0'', link_interfaces = [(''A'', ''Gi0/1''), (''sw1'', ''Gi0/2'')]\<rparr>]
   | _ \<Rightarrow> False"
  by (simp add: discovery_eval new_device_eval)

section \<open>Termination of the discovery loop\<close>

lemma add_to_device_list_keys:
  "fst ` set (add_to_device_list dl h p ia ma o' dn) = insert h (fst ` set dl)"
  by (auto simp: add_to_device_list_def Let_def dom_update split: option.splits)

lemma apply_verdict_keys:
  assumes "apply_verdict dn v (dl, cd) = (dl', cd')"
  shows "fst ` set dl' \<subseteq> fst ` set dl \<union> (case v of Keep h _ _ _ _ _ \<Rightarrow> {h} | _ \<Rightarrow> {})"
proof (cases v)
  case (Keep h p i ia ma o')
  with assms have "dl' = add_to_device_list dl h p ia ma o' dn" by simp
  then have "fst ` set dl' = insert h (fst ` set dl)" by (simp only: add_to_device_list_keys)
  with Keep show ?thesis by simp
qed (use assms in simp_all)

lemma cdp_verdict_Keep:
  "cdp_verdict cfg parse nets names c = Inr (Keep h p i ia ma o') \<Longrightarrow>
     \<exists>raw. cdp_dest_host c = Some raw \<and> h = filter_name raw"
  by (auto simp: cdp_verdict_def Let_def split: option.splits if_splits sum.splits)

lemma lldp_verdict_Keep:
  "lldp_verdict cfg parse nets names interface dest_port neighbors = Inr (Keep h p i ia ma o') \<Longrightarrow>
     \<exists>x. take 1 neighbors = [x] \<and> h = filter_name (fst x)"
  by (cases neighbors)
    (auto simp: lldp_verdict_def Let_def split: option.splits if_splits sum.splits)

lemma process_cdp_information_keys:
  "process_cdp_information cfg parse nets names dn cs (dl, cd) = Inr (dl', cd') \<Longrightarrow>
     fst ` set dl' \<subseteq> fst ` set dl \<union> filter_name ` set (List.map_filter cdp_dest_host cs)"
proof (induction cs arbitrary: dl cd)
  case Nil
  then show ?case by simp
next
  case (Cons c cs)
  from Cons.prems obtain v where v: "cdp_verdict cfg parse nets names c = Inr v"
    and run: "process_cdp_information cfg parse nets names dn cs (apply_verdict dn v (dl, cd)) = Inr (dl', cd')"
    by (auto split: sum.splits)
  obtain dl1 cd1 where av: "apply_verdict dn v (dl, cd) = (dl1, cd1)"
    by (cases "apply_verdict dn v (dl, cd)")
  have "fst ` set dl1 \<subseteq> fst ` set dl \<union> filter_name ` set (List.map_filter cdp_dest_host (c # cs))"
  proof (cases v)
    case (Keep h p i ia ma o')
    with v obtain raw where "cdp_dest_host c = Some raw" "h = filter_name raw"
      by (auto dest: cdp_verdict_Keep)
    with apply_verdict_keys [OF av] Keep show ?thesis by (auto simp: map_filter_simps)
  qed (use apply_verdict_keys [OF av] in auto)
  moreover from Cons.IH [of dl1 cd1] run av
  have "fst ` set dl' \<subseteq> fst ` set dl1 \<union> filter_name ` set (List.map_filter cdp_dest_host cs)"
    by simp
  ultimately show ?case by (auto simp: map_filter_simps split: option.splits)
qed

lemma process_lldp_ports_keys:
  "process_lldp_ports cfg parse nets names dn interface port_list (dl, cd) = Inr (dl', cd') \<Longrightarrow>
     fst ` set dl' \<subseteq> fst ` set dl \<union>
       set (concat (map (\<lambda>(dest_port, neighbors). map (\<lambda>n. filter_name (fst n)) (take 1 neighbors)) port_list))"
proof (induction port_list arbitrary: dl cd)
  case Nil
  then show ?case by simp
next
  case (Cons x port_list)
  define F :: "string \<times> (string \<times> lldp_neighbor) list \<Rightarrow> string list"
    where "F = (\<lambda>(dest_port, neighbors). map (\<lambda>n. filter_name (fst n)) (take 1 neighbors))"
  obtain dest_port neighbors where x: "x = (dest_port, neighbors)" by (cases x)
  from Cons.prems x obtain v where
    v: "lldp_verdict cfg parse nets names interface dest_port neighbors = Inr v"
    and run: "process_lldp_ports cfg parse nets names dn interface port_list
        (apply_verdict dn v (dl, cd)) = Inr (dl', cd')"
    by (auto split: sum.splits)
  obtain dl1 cd1 where av: "apply_verdict dn v (dl, cd) = (dl1, cd1)"
    by (cases "apply_verdict dn v (dl, cd)")
  have "fst ` set dl1 \<subseteq> fst ` set dl \<union> set (F x)"
  proof (cases v)
    case (Keep h p i ia ma o')
    with v obtain y where "take 1 neighbors = [y]" "h = filter_name (fst y)"
      by (auto dest: lldp_verdict_Keep)
    then have "h \<in> set (F x)" by (simp add: F_def x)
    with apply_verdict_keys [OF av] Keep show ?thesis by auto
  qed (use apply_verdict_keys [OF av] in auto)
  moreover from Cons.IH [of dl1 cd1] run av
  have "fst ` set dl' \<subseteq> fst ` set dl1 \<union> set (concat (map F port_list))"
    by (simp add: F_def)
  moreover have "set (concat (map F (x # port_list))) = set (F x) \<union> set (concat (map F port_list))"
    by simp
  ultimately have "fst ` set dl' \<subseteq> fst ` set dl \<union> set (concat (map F (x # port_list)))"
    by blast
  then show ?case by (simp only: F_def)
qed

lemma process_lldp_information_keys:
  "process_lldp_information cfg parse nets names dn ifs (dl, cd) = Inr (dl', cd') \<Longrightarrow>
     fst ` set dl' \<subseteq> fst ` set dl \<union>
       set (concat (map (\<lambda>(interface, port_list).
              concat (map (\<lambda>(dest_port, neighbors). map (\<lambda>n. filter_name (fst n)) (take 1 neighbors))
                        port_list)) ifs))"
proof (induction ifs arbitrary: dl cd)
  case Nil
  then show ?case by simp
next
  case (Cons x ifs)
  define G :: "string \<times> (string \<times> (string \<times> lldp_neighbor) list) list \<Rightarrow> string list"
    where "G = (\<lambda>(interface, port_list).
      concat (map (\<lambda>(dest_port, neighbors). map (\<lambda>n. filter_name (fst n)) (take 1 neighbors)) port_list))"
  obtain interface port_list where x: "x = (interface, port_list)" by (cases x)
  from Cons.prems x obtain dl1 cd1 where
    ports: "process_lldp_ports cfg parse nets names dn interface port_list (dl, cd) = Inr (dl1, cd1)"
    and run: "process_lldp_information cfg parse nets names dn ifs (dl1, cd1) = Inr (dl', cd')"
    by (auto split: sum.splits)
  from process_lldp_ports_keys [OF ports]
  have "fst ` set dl1 \<subseteq> fst ` set dl \<union> set (G x)" by (simp add: G_def x)
  moreover from Cons.IH [OF run]
  have "fst ` set dl' \<subseteq> fst ` set dl1 \<union> set (concat (map G ifs))" by (simp add: G_def)
  moreover have "set (concat (map G (x # ifs))) = set (G x) \<union> set (concat (map G ifs))"
    by simp
  ultimately have "fst ` set dl' \<subseteq> fst ` set dl \<union> set (concat (map G (x # ifs)))"
    by blast
  then show ?case by (simp only: G_def)
qed

lemma add_connection_interfaces_names:
  "add_connection_interfaces dn names tb = Inr tb' \<Longrightarrow>
     map fst (devices tb') = map fst (devices tb) \<and> links tb' = links tb"
proof (induction names arbitrary: tb)
  case Nil
  then show ?case by simp
next
  case (Cons i names)
  from Cons.prems obtain d where d: "map_of (devices tb) dn = Some d"
    by (auto split: option.splits)
  then have key: "dn \<in> set (map fst (devices tb))" by (auto dest: map_of_SomeD intro: rev_image_eqI)
  show ?case
  proof (cases "map_of (interfaces d) i \<noteq> None")
    case True
    with Cons.prems d have "add_connection_interfaces dn names tb = Inr tb'" by simp
    then show ?thesis by (rule Cons.IH)
  next
    case False
    with Cons.prems d obtain t where
      run: "add_connection_interfaces dn names
        (tb\<lparr>devices := AList.update dn (add_interface i (lower t) d) (devices tb)\<rparr>) = Inr tb'"
      by (auto split: option.splits)
    from Cons.IH [OF run] key show ?thesis by (simp add: update_keys)
  qed
qed

lemma get_device_connections_result:
  assumes "get_device_connections cfg parse nets data dn dl tb = Inr (cd, dl', tb')"
  shows "fst ` set dl' \<subseteq> fst ` set dl \<union> set (reported_names data) \<and>
         map fst (devices tb') = map fst (devices tb) \<and> links tb' = links tb"
proof -
  let ?names = "map fst (devices tb)"
  from assms obtain dl1 cd1 where
    c: "process_cdp_information cfg parse nets ?names dn (cdp data) (dl, []) = Inr (dl1, cd1)"
    by (auto simp: get_device_connections_def Let_def split: sum.splits)
  from assms c obtain
    l: "(case lldp data of
           None \<Rightarrow> Inr (dl1, cd1)
         | Some result \<Rightarrow>
             if total_entries result \<noteq> 0
             then process_lldp_information cfg parse nets ?names dn (lldp_interfaces result) (dl1, cd1)
             else Inr (dl1, cd1)) = Inr (dl', cd)"
    and a: "add_connection_interfaces dn (map fst cd) tb = Inr tb'"
    by (auto simp: get_device_connections_def Let_def split: sum.splits)
  have k1: "fst ` set dl1 \<subseteq> fst ` set dl \<union> filter_name ` set (List.map_filter cdp_dest_host (cdp data))"
    using c by (rule process_cdp_information_keys)
  have r: "set (reported_names data) =
      filter_name ` set (List.map_filter cdp_dest_host (cdp data)) \<union>
      (case lldp data of None \<Rightarrow> {} | Some result \<Rightarrow>
         set (concat (map (\<lambda>(interface, port_list).
              concat (map (\<lambda>(dest_port, neighbors). map (\<lambda>n. filter_name (fst n)) (take 1 neighbors))
                        port_list)) (lldp_interfaces result))))"
    by (cases "lldp data") (simp_all only: reported_names_def option.case set_append set_map list.set(1))
  have k2: "fst ` set dl' \<subseteq> fst ` set dl1 \<union> set (reported_names data)"
  proof (cases "lldp data")
    case None
    with l show ?thesis by auto
  next
    case (Some result)
    show ?thesis
    proof (cases "total_entries result \<noteq> 0")
      case True
      with l Some have "process_lldp_information cfg parse nets ?names dn (lldp_interfaces result)
          (dl1, cd1) = Inr (dl', cd)" by simp
      from process_lldp_information_keys [OF this] show ?thesis
        unfolding r Some by (simp only: option.case) blast
    next
      case False
      with l Some show ?thesis by auto
    qed
  qed
  from k1 have "fst ` set dl1 \<subseteq> fst ` set dl \<union> set (reported_names data)"
    unfolding r by blast
  with k2 have "fst ` set dl' \<subseteq> fst ` set dl \<union> set (reported_names data)"
    by blast
  with add_connection_interfaces_names [OF a] show ?thesis by simp
qed

lemma process_results_result:
  assumes "process_results cfg parse nets nbr ds (conn_dict, dl, tb) = Inr (conn_dict', dl', tb')"
    and "\<forall>d. set (reported_names (nbr d)) \<subseteq> U"
  shows "fst ` set dl' \<subseteq> fst ` set dl \<union> U \<and> map fst (devices tb') = map fst (devices tb)"
  using assms(1)
proof (induction ds arbitrary: conn_dict dl tb)
  case Nil
  then show ?case by simp
next
  case (Cons d ds)
  from Cons.prems obtain cd1 dl1 tb1 where
    one: "get_device_connections cfg parse nets (nbr d) d dl tb = Inr (cd1, dl1, tb1)"
    and run: "process_results cfg parse nets nbr ds (AList.update d cd1 conn_dict, dl1, tb1)
        = Inr (conn_dict', dl', tb')"
    by (auto split: sum.splits)
  from get_device_connections_result [OF one] assms(2)
  have "fst ` set dl1 \<subseteq> fst ` set dl \<union> U" and "map fst (devices tb1) = map fst (devices tb)"
    by blast+
  moreover from Cons.IH [OF run]
  have "fst ` set dl' \<subseteq> fst ` set dl1 \<union> U" and "map fst (devices tb') = map fst (devices tb1)"
    by blast+
  ultimately show ?case by (intro conjI) (blast, simp)
qed

lemma process_neigbor_data_result:
  assumes "process_neigbor_data cfg parse nets nbr tb dl visited = Inr (conn_dict, dl', tb', visited')"
    and "\<forall>d. set (reported_names (nbr d)) \<subseteq> U"
  shows "fst ` set dl' \<subseteq> fst ` set dl \<union> U \<and> map fst (devices tb') = map fst (devices tb) \<and>
         visited' = visited @ filter (\<lambda>device. device \<notin> set visited) (map fst (devices tb))"
proof -
  from assms(1) have
    "process_results cfg parse nets nbr (filter (\<lambda>device. device \<notin> set visited) (map fst (devices tb)))
       ([], dl, tb) = Inr (conn_dict, dl', tb')"
    and "visited' = visited @ filter (\<lambda>device. device \<notin> set visited) (map fst (devices tb))"
    by (auto simp: process_neigbor_data_def Let_def split: sum.splits)
  with process_results_result [OF _ assms(2)] show ?thesis by blast
qed

lemma write_devices_loop_result:
  assumes "write_devices_loop cfg shw ps dl (tb, nd, v) = Inr (tb', nd')"
    and "distinct (map fst nd)" and "set (map fst nd) \<inter> set (map fst (devices tb)) = {}"
  shows "map fst (devices tb') = map fst (devices tb) \<and> distinct (map fst nd') \<and>
         set (map fst nd') \<inter> set (map fst (devices tb)) = {} \<and>
         set (map fst nd') \<subseteq> set (map fst nd) \<union> fst ` set dl"
  using assms
proof (induction dl arbitrary: tb nd v)
  case Nil
  then show ?case by simp
next
  case (Cons x dl)
  obtain new_dev info where x: "x = (new_dev, info)" by (cases x)
  show ?case
  proof (cases "map_of (devices tb) new_dev")
    case None
    then have fresh: "new_dev \<notin> set (map fst (devices tb))" by (simp add: map_of_eq_None_iff)
    from Cons.prems(1) x None obtain dev tb1 v1 where
      new: "write_new_device ps new_dev info tb v = Inr (dev, tb1, v1)"
      and run: "write_devices_loop cfg shw ps dl (tb1, AList.update new_dev dev nd, v1) = Inr (tb', nd')"
      by (auto split: sum.splits)
    have names: "map fst (devices tb1) = map fst (devices tb)"
      using new by (rule write_new_device_names)
    have d: "distinct (map fst (AList.update new_dev dev nd))"
      using Cons.prems(2) by (rule distinct_update)
    have k: "fst ` set (AList.update new_dev dev nd) = insert new_dev (fst ` set nd)"
      by (simp add: dom_update)
    have "set (map fst (AList.update new_dev dev nd)) \<inter> set (map fst (devices tb1)) = {}"
      using Cons.prems(3) fresh by (simp add: k names)
    from Cons.IH [OF run d this]
    have "map fst (devices tb') = map fst (devices tb)" and "distinct (map fst nd')"
      and "set (map fst nd') \<inter> set (map fst (devices tb)) = {}"
      and "fst ` set nd' \<subseteq> insert new_dev (fst ` set nd) \<union> fst ` set dl"
      by (simp_all only: names k set_map)
    then show ?thesis unfolding x by auto
  next
    case (Some d)
    from Cons.prems(1) x Some obtain d' where
      run: "write_devices_loop cfg shw ps dl
        (tb\<lparr>devices := AList.update new_dev d' (devices tb)\<rparr>, nd, v) = Inr (tb', nd')"
      by (auto split: sum.splits)
    let ?tb = "tb\<lparr>devices := AList.update new_dev d' (devices tb)\<rparr>"
    have names: "map fst (devices ?tb) = map fst (devices tb)"
      using Some by (simp add: update_keys key_of_map_of)
    have "set (map fst nd) \<inter> set (map fst (devices ?tb)) = {}"
      using Cons.prems(3) by (simp only: names)
    from Cons.IH [OF run Cons.prems(2) this]
    have "map fst (devices tb') = map fst (devices tb)" and "distinct (map fst nd')"
      and "set (map fst nd') \<inter> set (map fst (devices tb)) = {}"
      and "set (map fst nd') \<subseteq> set (map fst nd) \<union> fst ` set dl"
      by (simp_all only: names)
    then show ?thesis unfolding x by auto
  qed
qed

lemma map_entry_keys: "map fst (AList.map_entry k f xs) = map fst xs"
  by (induction xs) auto

lemma connect_interface_names [simp]:
  "map fst (devices (connect_interface l p tb)) = map fst (devices tb)"
  by (simp add: connect_interface_def map_entry_keys)

lemma fold_connect_names [simp]:
  "map fst (devices (fold (connect_interface l) rs tb)) = map fst (devices tb)"
  by (induction rs arbitrary: tb) auto

lemma extend_link_names:
  "extend_link l entries tb = Inr tb' \<Longrightarrow> map fst (devices tb') = map fst (devices tb)"
proof (induction entries arbitrary: tb)
  case Nil
  then show ?case by simp
next
  case (Cons r entries)
  obtain dev dest_int where r: "r = (dev, dest_int)" by (cases r)
  from Cons.prems r obtain tb1 where run: "extend_link l entries tb1 = Inr tb'"
    and "tb1 = tb \<or> tb1 = connect_interface l r tb"
    by (auto split: sum.splits if_splits)
  with Cons.IH [OF run] show ?case by auto
qed

lemma write_interface_connections_names:
  "write_interface_connections device interface_name entries tb = Inr tb' \<Longrightarrow>
     map fst (devices tb') = map fst (devices tb)"
  by (auto simp: write_interface_connections_def new_link_def
      split: sum.splits option.splits dest: extend_link_names)

lemma write_device_connections_names:
  "write_device_connections device cd tb = Inr tb' \<Longrightarrow>
     map fst (devices tb') = map fst (devices tb)"
proof (induction cd arbitrary: tb)
  case Nil
  then show ?case by simp
next
  case (Cons x cd)
  obtain interface_name entries where x: "x = (interface_name, entries)" by (cases x)
  from Cons.prems x obtain tb1 where
    "write_interface_connections device interface_name entries tb = Inr tb1"
    and "write_device_connections device cd tb1 = Inr tb'"
    by (auto split: sum.splits)
  with Cons.IH [of tb1] show ?case by (auto dest: write_interface_connections_names)
qed

lemma write_connections_to_testbed_names:
  "write_connections_to_testbed result tb = Inr tb' \<Longrightarrow>
     map fst (devices tb') = map fst (devices tb)"
proof (induction result arbitrary: tb)
  case Nil
  then show ?case by simp
next
  case (Cons x result)
  obtain device cd where x: "x = (device, cd)" by (cases x)
  from Cons.prems x obtain tb1 where
    "write_device_connections device cd tb = Inr tb1"
    and "write_connections_to_testbed result tb1 = Inr tb'"
    by (auto split: sum.splits)
  with Cons.IH [of tb1] show ?case by (auto dest: write_device_connections_names)
qed

lemma discovery_round_visited:
  assumes "discovery_round env s = Inr s'"
  shows "visited_devices s' = visited_devices s @
           filter (\<lambda>device. device \<notin> set (visited_devices s)) (map fst (devices (state_testbed s)))"
  using assms
  by (auto simp: discovery_round_def process_neigbor_data_def Let_def split: sum.splits)

lemma discovery_round_props:
  assumes round: "discovery_round env s = Inr s'"
    and univ: "\<forall>d. set (reported_names (env_neighbor_info env d)) \<subseteq> U"
    and inv: "run_invariant U s"
  shows "run_invariant U s' \<and>
         set (visited_devices s') = set (map fst (devices (state_testbed s))) \<and>
         (\<exists>new. map fst (devices (state_testbed s')) = map fst (devices (state_testbed s)) @ new \<and>
                set new \<subseteq> U)"
proof -
  let ?tb = "state_testbed s" and ?dl = "state_device_list s" and ?v = "visited_devices s"
  from round obtain result dl1 tb1 v1 tb2 nd tb3 where
    p: "process_neigbor_data (env_config env) (env_parse env) (env_networks env)
          (env_neighbor_info env) ?tb ?dl ?v = Inr (result, dl1, tb1, v1)"
    and w: "write_devices_into_testbed (env_config env) (env_show_interfaces env)
          (env_proxy_set env) dl1 tb1 = Inr (tb2, nd)"
    and c: "write_connections_to_testbed result (tb2\<lparr>devices := devices tb2 @ nd\<rparr>) = Inr tb3"
    and s': "s' = \<lparr>state_testbed = tb3, visited_devices = v1, state_device_list = dl1\<rparr>"
    by (auto simp: discovery_round_def split: sum.splits)
  from process_neigbor_data_result [OF p univ]
  have dl1: "fst ` set dl1 \<subseteq> fst ` set ?dl \<union> U"
    and n1: "map fst (devices tb1) = map fst (devices ?tb)"
    and v1: "v1 = ?v @ filter (\<lambda>device. device \<notin> set ?v) (map fst (devices ?tb))"
    by blast+
  from w have "write_devices_loop (env_config env) (env_show_interfaces env) (env_proxy_set env)
      dl1 (tb1, [], None) = Inr (tb2, nd)"
    by (simp add: write_devices_into_testbed_def)
  from write_devices_loop_result [OF this]
  have n2: "map fst (devices tb2) = map fst (devices tb1)" and dnd: "distinct (map fst nd)"
    and fresh: "set (map fst nd) \<inter> set (map fst (devices tb1)) = {}"
    and knd: "set (map fst nd) \<subseteq> fst ` set dl1"
    by auto
  from write_connections_to_testbed_names [OF c]
  have n3: "map fst (devices tb3) = map fst (devices ?tb) @ map fst nd"
    by (simp add: n2 n1)
  from inv have dist: "distinct (map fst (devices ?tb))" and dv: "distinct ?v"
    and sub: "set ?v \<subseteq> set (map fst (devices ?tb))" and keys: "fst ` set ?dl \<subseteq> U"
    by (auto simp: run_invariant_def)
  have keys1: "fst ` set dl1 \<subseteq> U" using dl1 keys by blast
  have vset: "set v1 = set (map fst (devices ?tb))" using sub unfolding v1 by auto
  have "distinct v1" using dv dist unfolding v1 by auto
  moreover have "distinct (map fst (devices tb3))"
    unfolding n3 using dist dnd fresh by (auto simp: n1)
  moreover have "set v1 \<subseteq> set (map fst (devices tb3))" unfolding vset n3 by simp
  ultimately have "run_invariant U s'" using keys1 by (simp add: run_invariant_def s')
  moreover have "set (map fst nd) \<subseteq> U" using knd keys1 by blast
  ultimately show ?thesis using vset n3 by (auto simp: s')
qed

lemma distinct_same_length:
  assumes "distinct xs" and "distinct ys" and "set xs \<subseteq> set ys" and "length ys \<le> length xs"
  shows "set xs = set ys"
proof -
  from assms(1,2,4) have "card (set ys) \<le> card (set xs)" by (simp add: distinct_card)
  with assms(3) show ?thesis by (intro card_seteq) auto
qed

lemma generate_loop_terminates:
  assumes univ: "\<forall>d. set (reported_names (env_neighbor_info env d)) \<subseteq> set universe"
    and nol: "\<not> only_links (env_config env)"
  shows "run_invariant (set universe) s \<Longrightarrow>
         card (set universe - set (map fst (devices (state_testbed s)))) + 2 \<le> fuel \<Longrightarrow>
         k \<le> length (visited_devices s) \<Longrightarrow>
         \<exists>r. generate_loop env fuel s k = Some r \<and>
           (\<forall>s' n. r = Inr (s', n) \<longrightarrow>
              set (visited_devices s') = set (map fst (devices (state_testbed s'))) \<and>
              n \<le> length (devices (state_testbed s')))"
proof (induction fuel arbitrary: s k)
  case 0
  then show ?case by simp
next
  case (Suc fuel)
  let ?names = "map fst (devices (state_testbed s))"
  from Suc.prems(1) have dist: "distinct ?names" and dv: "distinct (visited_devices s)"
    and sub: "set (visited_devices s) \<subseteq> set ?names"
    by (auto simp: run_invariant_def)
  show ?case
  proof (cases "length (devices (state_testbed s)) > length (visited_devices s)")
    case False
    then have "length ?names \<le> length (visited_devices s)" by simp
    with dv dist sub have eq: "set (visited_devices s) = set ?names"
      by (intro distinct_same_length)
    from dv dist eq have "length (visited_devices s) = length ?names"
      by (metis distinct_card)
    with False Suc.prems(3) eq show ?thesis by simp
  next
    case True
    show ?thesis
    proof (cases "discovery_round env s")
      case (Inl e)
      with True show ?thesis by simp
    next
      case (Inr s1)
      let ?names1 = "map fst (devices (state_testbed s1))"
      from discovery_round_props [OF Inr univ Suc.prems(1)] obtain new where
        inv1: "run_invariant (set universe) s1"
        and v1: "set (visited_devices s1) = set ?names"
        and n1: "?names1 = ?names @ new" and new: "set new \<subseteq> set universe"
        by blast
      from inv1 have dist1: "distinct ?names1" and dv1: "distinct (visited_devices s1)"
        by (auto simp: run_invariant_def)
      from dv1 dist v1 have lv1: "length (visited_devices s1) = length ?names"
        by (metis distinct_card)
      with True Suc.prems(3) have k1: "Suc k \<le> length (visited_devices s1)" by simp
      have loop: "generate_loop env (Suc fuel) s k = generate_loop env fuel s1 (Suc k)"
        using True Inr nol by simp
      show ?thesis
      proof (cases "new = []")
        case True
        from n1 True have "length ?names1 = length ?names" by simp
        then have len1: "length (devices (state_testbed s1)) = length (devices (state_testbed s))"
          by simp
        with lv1 have stop: "\<not> length (devices (state_testbed s1)) > length (visited_devices s1)"
          by simp
        from Suc.prems(2) obtain fuel' where fuel: "fuel = Suc fuel'" by (cases fuel) auto
        from True n1 v1 have "set (visited_devices s1) = set ?names1" by simp
        moreover from k1 lv1 len1 have "Suc k \<le> length (devices (state_testbed s1))"
          by simp
        moreover from stop fuel have "generate_loop env fuel s1 (Suc k) = Some (Inr (s1, Suc k))"
          by simp
        ultimately show ?thesis by (simp only: loop) simp
      next
        case False
        from dist1 n1 have disj: "set new \<inter> set ?names = {}" by auto
        from False obtain x where x: "x \<in> set new" by (cases new) auto
        with new disj have "x \<in> set universe - set ?names" and "x \<notin> set universe - set ?names1"
          using n1 by auto
        moreover have "set universe - set ?names1 \<subseteq> set universe - set ?names"
          using n1 by auto
        ultimately have "set universe - set ?names1 \<subset> set universe - set ?names" by blast
        then have "card (set universe - set ?names1) < card (set universe - set ?names)"
          by (intro psubset_card_mono) auto
        with Suc.prems(2) have "card (set universe - set ?names1) + 2 \<le> fuel" by simp
        from Suc.IH [OF inv1 this k1] show ?thesis unfolding loop .
      qed
    qed
  qed
qed

text \<open>
  C9. Outside links-only mode, when the names that the devices report all lie in a finite
  universe, the loop ends, with fuel for two rounds more than the universe has names: by
  an exception, or in a state where every device of the graph is visited, after a number
  of rounds that is at most the number of devices of the final graph. Every round adds
  exactly the unvisited devices of the graph to the visited ones, so the visited set only
  grows; and in a state where every device of the graph is visited the loop exits at
  once.
\<close>

theorem discovery_loop_terminates:
  assumes "\<not> only_links (env_config env)"
    and "distinct (map fst (devices tb))"
    and "\<forall>device. set (reported_names (env_neighbor_info env device)) \<subseteq> set universe"
    and "length universe + 2 \<le> fuel"
  shows "(\<exists>r. discover env fuel tb = Some r \<and>
            (\<forall>s rounds. r = Inr (s, rounds) \<longrightarrow>
               set (visited_devices s) = set (map fst (devices (state_testbed s))) \<and>
               rounds \<le> length (devices (state_testbed s)))) \<and>
         (\<forall>s s'. discovery_round env s = Inr s' \<longrightarrow>
            set (visited_devices s') =
              set (visited_devices s) \<union> set (map fst (devices (state_testbed s)))) \<and>
         (\<forall>s rounds n.
            distinct (map fst (devices (state_testbed s))) \<and> distinct (visited_devices s) \<and>
            set (visited_devices s) = set (map fst (devices (state_testbed s))) \<longrightarrow>
            generate_loop env (Suc n) s rounds = Some (Inr (s, rounds)))"
proof (intro conjI allI impI)
  let ?s = "\<lparr>state_testbed = tb, visited_devices = [], state_device_list = []\<rparr>"
  have inv: "run_invariant (set universe) ?s"
    using assms(2) by (simp add: run_invariant_def)
  have "card (set universe - set (map fst (devices (state_testbed ?s)))) \<le> card (set universe)"
    by (intro card_mono) auto
  also have "\<dots> \<le> length universe" by (rule card_length)
  finally have "card (set universe - set (map fst (devices (state_testbed ?s)))) + 2 \<le> fuel"
    using assms(4) by simp
  from generate_loop_terminates [OF assms(3) assms(1) inv this, of 0]
  show "\<exists>r. discover env fuel tb = Some r \<and>
            (\<forall>s rounds. r = Inr (s, rounds) \<longrightarrow>
               set (visited_devices s) = set (map fst (devices (state_testbed s))) \<and>
               rounds \<le> length (devices (state_testbed s)))"
    by (simp add: discover_def)
next
  fix s s'
  assume "discovery_round env s = Inr s'"
  then show "set (visited_devices s') =
      set (visited_devices s) \<union> set (map fst (devices (state_testbed s)))"
    by (auto simp: discovery_round_visited)
next
  fix s :: run_state and rounds n :: nat
  assume a: "distinct (map fst (devices (state_testbed s))) \<and> distinct (visited_devices s) \<and>
      set (visited_devices s) = set (map fst (devices (state_testbed s)))"
  then have "length (visited_devices s) = length (map fst (devices (state_testbed s)))"
    by (metis distinct_card)
  then show "generate_loop env (Suc n) s rounds = Some (Inr (s, rounds))" by simp
qed

text \<open>
  A reports the CDP neighbor edge1.example.com: the second round visits edge1, which
  reports nothing, and the loop ends after two rounds with two devices.
\<close>

theorem discovery_loop_terminates_witness:
  "case discover
          \<lparr>env_config = \<lparr>only_links = False, exclude_interfaces = '''',
                          add_unconnected_interfaces = False\<rparr>,
           env_parse = parse_example, env_networks = [],
           env_neighbor_info = (\<lambda>device.
             if device = ''A''
             then \<lparr>cdp = [\<lparr>system_name = Some ''edge1.example.com'', device_id = None,
                            port_id = ''Gi0/2'', local_interface = ''Gi0/1'',
                            management_addresses = Some [''10.0.0.5''],
                            interface_addresses = Some [],
                            software_version = ''Cisco IOS Software'',
                            platform = ''cisco WS-C3750''\<rparr>], lldp = None\<rparr>
             else \<lparr>cdp = [], lldp = None\<rparr>),
           env_show_interfaces = (\<lambda>device. None), env_proxy_set = []\<rparr>
          3 \<lparr>devices = [(''A'', example_finder)], links = []\<rparr> of
     Some (Inr (s, rounds)) \<Rightarrow>
       rounds = 2 \<and> map fst (devices (state_testbed s)) = [''A'', ''edge1''] \<and>
       set (visited_devices s) = set (map fst (devices (state_testbed s))) \<and>
       rounds \<le> length (devices (state_testbed s))
   | _ \<Rightarrow> False"
proof -
  let ?env = "\<lparr>env_config = \<lparr>only_links = False, exclude_interfaces = '''',
                          add_unconnected_interfaces = False\<rparr>,
           env_parse = parse_example, env_networks = [],
           env_neighbor_info = (\<lambda>device.
             if device = ''A''
             then \<lparr>cdp = [\<lparr>system_name = Some ''edge1.example.com'', device_id = None,
                            port_id = ''Gi0/2'', local_interface = ''Gi0/1'',
                            management_addresses = Some [''10.0.0.5''],
                            interface_addresses = Some [],
                            software_version = ''Cisco IOS Software'',
                            platform = ''cisco WS-C3750''\<rparr>], lldp = None\<rparr>
             else \<lparr>cdp = [], lldp = None\<rparr>),
           env_show_interfaces = (\<lambda>device. None), env_proxy_set = []\<rparr>"
  let ?tb = "\<lparr>devices = [(''A'', example_finder)], links = []\<rparr>"
  have h1: "\<not> only_links (env_config ?env)" by simp
  have h2: "distinct (map fst (devices ?tb))" by simp
  have h3: "\<forall>device. set (reported_names (env_neighbor_info ?env device)) \<subseteq> set [''edge1'']"
    by (simp add: reported_names_def map_filter_simps cdp_dest_host_def filter_name_def
        host_char_def word_char_def is_digit_def is_upper_def is_lower_def)
  have h4: "length [''edge1''] + 2 \<le> (3::nat)" by simp
  obtain s where run: "discover ?env 3 ?tb = Some (Inr (s, 2))"
    and names: "map fst (devices (state_testbed s)) = [''A'', ''edge1'']"
    by (simp add: numeral_3_eq_3 discovery_eval new_device_eval)
  from discovery_loop_terminates [OF h1 h2 h3 h4] run
  have "set (visited_devices s) = set (map fst (devices (state_testbed s))) \<and>
      2 \<le> length (devices (state_testbed s))" by simp
  moreover from names have "fst ` set (devices (state_testbed s)) = {''A'', ''edge1''}"
    by (metis list.set(1) list.set(2) set_map)
  ultimately show ?thesis using run names by simp
qed

end
